theory Spec2Isabelle
  imports Complex_Main "HOL-Library.Sublist"
begin

section \<open>Strings\<close>

text \<open>
  A Python \<open>str\<close> is modelled as a HOL \<open>string\<close>: a list of characters with codes
  0 to 255, read as the code points U+0000 to U+00FF. Scores are Python floats in the
  source; they are modelled as exact reals, so rounding plays no part in what follows.
\<close>

definition is_digit :: "char \<Rightarrow> bool" where
  "is_digit c = (let n = (of_char c :: nat) in 48 \<le> n \<and> n \<le> 57)"

definition is_upper :: "char \<Rightarrow> bool" where
  "is_upper c = (let n = (of_char c :: nat) in 65 \<le> n \<and> n \<le> 90)"

definition is_lower :: "char \<Rightarrow> bool" where
  "is_lower c = (let n = (of_char c :: nat) in 97 \<le> n \<and> n \<le> 122)"

text \<open>
  \<open>str.lower()\<close> on one code point below U+0100: the ASCII capitals and the Latin-1
  capitals U+00C0 to U+00DE (the multiplication sign U+00D7 apart) move up by 32.
\<close>

definition lower_char :: "char \<Rightarrow> char" where
  "lower_char c =
     (let n = (of_char c :: nat)
      in if (65 \<le> n \<and> n \<le> 90) \<or> (192 \<le> n \<and> n \<le> 222 \<and> n \<noteq> 215)
         then char_of (n + 32) else c)"

definition str_lower :: "string \<Rightarrow> string" where
  "str_lower s = map lower_char s"

text \<open>\<open>s.startswith(p)\<close> and \<open>s.endswith(p)\<close>.\<close>

fun startswith :: "string \<Rightarrow> string \<Rightarrow> bool" where
  "startswith s [] = True"
| "startswith [] (p # ps) = False"
| "startswith (c # cs) (p # ps) = (c = p \<and> startswith cs ps)"

definition endswith :: "string \<Rightarrow> string \<Rightarrow> bool" where
  "endswith s p = startswith (rev s) (rev p)"

text \<open>\<open>p in s\<close> for two strings: \<open>p\<close> occurs in \<open>s\<close> as a contiguous substring.\<close>

fun str_in :: "string \<Rightarrow> string \<Rightarrow> bool" where
  "str_in p [] = (p = [])"
| "str_in p (c # cs) = (startswith (c # cs) p \<or> str_in p cs)"

text \<open>\<open>s.split(sep)\<close> for a one-character separator; the result is never empty.\<close>

fun py_split :: "char \<Rightarrow> string \<Rightarrow> string list" where
  "py_split sep [] = [[]]"
| "py_split sep (c # cs) =
     (if c = sep then [] # py_split sep cs
      else (case py_split sep cs of
              [] \<Rightarrow> [[c]]
            | w # ws \<Rightarrow> (c # w) # ws))"

section \<open>Regular expressions of the source\<close>

text \<open>
  The fragment of Python's \<open>re\<close> that the patterns of the source use. A pattern is a
  sequence of atoms: \<open>^\<close>, \<open>$\<close>, a literal string, a character class followed by
  \<open>?\<close>, and a character class repeated at least \<open>n\<close> times (\<open>*\<close> is \<open>Rep 0\<close>,
  \<open>+\<close> is \<open>Rep 1\<close>, \<open>{4,}\<close> is \<open>Rep 4\<close>). Only whether a match exists is
  observed, so every split of a repetition is tried.
\<close>

datatype cls = Digit | AlNum | Chars string

datatype atom = Bol | Eol | Str string | Opt cls | Rep nat cls

text \<open>With the flag \<open>ci\<close> (\<open>re.I\<close>) letters are compared after lower-casing.\<close>

definition norm_char :: "bool \<Rightarrow> char \<Rightarrow> char" where
  "norm_char ci c = (if ci then lower_char c else c)"

fun in_cls :: "bool \<Rightarrow> cls \<Rightarrow> char \<Rightarrow> bool" where
  "in_cls ci Digit c = is_digit c"
| "in_cls ci AlNum c = (is_lower c \<or> is_upper c \<or> is_digit c)"
| "in_cls ci (Chars cs) c = (norm_char ci c \<in> set (map (norm_char ci) cs))"

fun run_length :: "bool \<Rightarrow> cls \<Rightarrow> string \<Rightarrow> nat" where
  "run_length ci k [] = 0"
| "run_length ci k (c # cs) = (if in_cls ci k c then Suc (run_length ci k cs) else 0)"

text \<open>
  \<open>match_here ci p b s\<close>: some prefix of \<open>s\<close> matches the atoms \<open>p\<close>; \<open>b\<close> says
  that \<open>s\<close> starts at the beginning of the subject string. \<open>$\<close> matches at the end
  and before a final newline.
\<close>

fun match_here :: "bool \<Rightarrow> atom list \<Rightarrow> bool \<Rightarrow> string \<Rightarrow> bool" where
  "match_here ci [] b s = True"
| "match_here ci (Bol # p) b s = (b \<and> match_here ci p b s)"
| "match_here ci (Eol # p) b s = ((s = [] \<or> s = [CHR 0x0A]) \<and> match_here ci p b s)"
| "match_here ci (Str w # p) b s =
     (startswith (map (norm_char ci) s) (map (norm_char ci) w)
      \<and> match_here ci p (b \<and> w = []) (drop (length w) s))"
| "match_here ci (Opt k # p) b s =
     (match_here ci p b s
      \<or> (case s of [] \<Rightarrow> False | c # cs \<Rightarrow> in_cls ci k c \<and> match_here ci p False cs))"
| "match_here ci (Rep n k # p) b s =
     list_ex (\<lambda>m. match_here ci p (b \<and> m = 0) (drop m s)) [n ..< Suc (run_length ci k s)]"

text \<open>\<open>re.match\<close> tries the start of the string, \<open>re.search\<close> every position.\<close>

definition re_match :: "bool \<Rightarrow> atom list \<Rightarrow> string \<Rightarrow> bool" where
  "re_match ci p s = match_here ci p True s"

fun search_from :: "bool \<Rightarrow> atom list \<Rightarrow> bool \<Rightarrow> string \<Rightarrow> bool" where
  "search_from ci p b [] = match_here ci p b []"
| "search_from ci p b (c # cs) = (match_here ci p b (c # cs) \<or> search_from ci p False cs)"

definition re_search :: "bool \<Rightarrow> atom list \<Rightarrow> string \<Rightarrow> bool" where
  "re_search ci p s = search_from ci p True s"

section \<open>The detector and its rule tables\<close>

text \<open>
  The object built by \<open>PhishingDetector.__init__\<close>: the keyword table (a dict, kept
  as the list of its items in definition order), the list of suspicious TLD suffixes
  and the list of sender patterns (each with its source text, which the reasons quote).
\<close>

record detector =
  suspicious_keywords :: "(string \<times> real) list"
  suspicious_tlds :: "string list"
  suspicious_sender_patterns :: "(string \<times> atom list) list"

definition bslash :: string where
  "bslash = [CHR 0x5C]"

definition keyword_table :: "(string \<times> real) list" where
  "keyword_table =
    [(''urgent'', 0.3),
     (''account suspended'', 0.4),
     (''verify your account'', 0.4),
     (''login attempt'', 0.3),
     (''unusual activity'', 0.3),
     (''password expired'', 0.4),
     (''security alert'', 0.3),
     (''click here'', 0.2),
     (''confirm identity'', 0.4),
     (''unusual login'', 0.3),
     (''limited time'', 0.2),
     (''account closure'', 0.4),
     (''suspicious activity'', 0.4),
     (''external payment'', 0.8),
     (''paypal only'', 0.7),
     (''western union'', 0.8),
     (''direct payment'', 0.7),
     (''contact outside'', 0.6),
     (''whatsapp'', 0.5),
     (''telegram'', 0.5),
     (''bonus offer'', 0.4),
     (''special promotion'', 0.4),
     (''fiverr support team'', 0.5),
     (''account verification required'', 0.6),
     (''order completed'', 0.4),
     (''payment pending'', 0.4),
     (''urgent payment'', 0.6),
     (''refund processing'', 0.5),
     (''additional fee'', 0.5),
     (''cryptocurrency'', 0.7),
     (''bitcoin payment'', 0.8),
     (''private email'', 0.6),
     (''skype chat'', 0.5)]"

definition tld_table :: "string list" where
  "tld_table =
    [''.tk'', ''.ml'', ''.ga'', ''.cf'', ''.gq'',
     ''.zip'', ''.review'', ''.country'', ''.kim'', ''.science'',
     ''.work'', ''.party'', ''.gdn'', ''.stream'', ''.download'']"

definition sender_pattern_table :: "(string \<times> atom list) list" where
  "sender_pattern_table =
    [(''^'' @ bslash @ ''d+@'',
        [Bol, Rep 1 Digit, Str ''@'']),
     (''[a-zA-Z0-9]+'' @ bslash @ ''d{4,}@'',
        [Rep 1 AlNum, Rep 4 Digit, Str ''@'']),
     (''security[_-]?alert'',
        [Str ''security'', Opt (Chars ''_-''), Str ''alert'']),
     (''account[_-]?verify'',
        [Str ''account'', Opt (Chars ''_-''), Str ''verify'']),
     (''support[_-]?'' @ bslash @ ''d+'',
        [Str ''support'', Opt (Chars ''_-''), Rep 1 Digit]),
     (''fiverr[._-]?support'' @ bslash @ ''d*@'',
        [Str ''fiverr'', Opt (Chars ''._-''), Str ''support'', Rep 0 Digit, Str ''@'']),
     (''fiverr[._-]?security@'',
        [Str ''fiverr'', Opt (Chars ''._-''), Str ''security@'']),
     (''fiverr[._-]?payment@'',
        [Str ''fiverr'', Opt (Chars ''._-''), Str ''payment@'']),
     (''fiverr[._-]?verify@'',
        [Str ''fiverr'', Opt (Chars ''._-''), Str ''verify@'']),
     (''fiverr[._-]?team@'',
        [Str ''fiverr'', Opt (Chars ''._-''), Str ''team@'']),
     (''admin[._-]?fiverr@'',
        [Str ''admin'', Opt (Chars ''._-''), Str ''fiverr@'']),
     (''support[._-]?team[._-]?'' @ bslash @ ''d*@'',
        [Str ''support'', Opt (Chars ''._-''), Str ''team'', Opt (Chars ''._-''),
         Rep 0 Digit, Str ''@'']),
     (''verification[._-]?team@'',
        [Str ''verification'', Opt (Chars ''._-''), Str ''team@'']),
     (''payment[._-]?support@'',
        [Str ''payment'', Opt (Chars ''._-''), Str ''support@'']),
     (''account[._-]?security@'',
        [Str ''account'', Opt (Chars ''._-''), Str ''security@''])]"

definition PhishingDetector :: detector where
  "PhishingDetector =
     \<lparr>suspicious_keywords = keyword_table,
      suspicious_tlds = tld_table,
      suspicious_sender_patterns = sender_pattern_table\<rparr>"

section \<open>Keyword analysis\<close>

text \<open>
  The loop of \<open>analyze_keywords\<close> over the items of the table, with its two
  accumulators \<open>total_score\<close> and \<open>detected_keywords\<close>.
\<close>

fun keywords_loop ::
  "(string \<times> real) list \<Rightarrow> string \<Rightarrow> real \<Rightarrow> string list \<Rightarrow> real \<times> string list" where
  "keywords_loop [] text total_score detected_keywords = (total_score, detected_keywords)"
| "keywords_loop ((keyword, score) # items) text total_score detected_keywords =
     (if str_in keyword text
      then keywords_loop items text (total_score + score) (detected_keywords @ [keyword])
      else keywords_loop items text total_score detected_keywords)"

definition analyze_keywords :: "detector \<Rightarrow> string \<Rightarrow> real \<times> string list" where
  "analyze_keywords self text =
     keywords_loop (suspicious_keywords self) (str_lower text) 0 []"

section \<open>Header analysis\<close>

text \<open>
  The header mapping is a dict from names to values, kept as the list of its items;
  only membership and lookup are used. \<open>v.split('@')[-1]\<close> is the last segment of
  the split, which always has one.
\<close>

type_synonym headers = "(string \<times> string) list"

definition last_segment :: "string \<Rightarrow> string" where
  "last_segment v = last (py_split CHR ''@'' v)"

definition reply_to_check :: "headers \<Rightarrow> real \<times> string list \<Rightarrow> real \<times> string list" where
  "reply_to_check hs acc =
     (case (map_of hs ''from'', map_of hs ''reply-to'') of
        (Some f, Some r) \<Rightarrow>
          (let from_domain = last_segment f; reply_domain = last_segment r
           in if from_domain \<noteq> reply_domain
              then (fst acc + 0.4, snd acc @ [''Reply-To domain mismatch''])
              else acc)
      | _ \<Rightarrow> acc)"

fun sender_loop ::
  "(string \<times> atom list) list \<Rightarrow> string \<Rightarrow> real \<times> string list \<Rightarrow> real \<times> string list" where
  "sender_loop [] f acc = acc"
| "sender_loop ((src, pat) # ps) f acc =
     (if re_search True pat f
      then sender_loop ps f (fst acc + 0.3, snd acc @ [''Suspicious sender pattern: '' @ src])
      else sender_loop ps f acc)"

definition sender_check :: "detector \<Rightarrow> headers \<Rightarrow> real \<times> string list \<Rightarrow> real \<times> string list" where
  "sender_check self hs acc =
     (case map_of hs ''from'' of
        Some f \<Rightarrow> sender_loop (suspicious_sender_patterns self) f acc
      | None \<Rightarrow> acc)"

definition important_headers :: "string list" where
  "important_headers = [''received'', ''authentication-results'', ''dkim-signature'']"

fun missing_loop :: "string list \<Rightarrow> headers \<Rightarrow> real \<times> string list \<Rightarrow> real \<times> string list" where
  "missing_loop [] hs acc = acc"
| "missing_loop (h # rest) hs acc =
     (if map_of hs h = None
      then missing_loop rest hs (fst acc + 0.2, snd acc @ [''Missing important header: '' @ h])
      else missing_loop rest hs acc)"

definition analyze_headers :: "detector \<Rightarrow> headers \<Rightarrow> real \<times> string list" where
  "analyze_headers self hs =
     missing_loop important_headers hs (sender_check self hs (reply_to_check hs (0, [])))"

section \<open>URL analysis\<close>

text \<open>
  The characters the URL pattern repeats after \<open>http://\<close> or \<open>https://\<close>: its
  classes \<open>[a-zA-Z]\<close>, \<open>[0-9]\<close>, \<open>[$-_@.&+]\<close> (with the range from \<open>$\<close> to
  \<open>_\<close>) and the class of \<open>!\<close>, \<open>*\<close>, backslash, parentheses and comma. The
  last alternative of the pattern, a percent sign and two hex digits, starts with a
  character of the range, so it never adds to a match: a match is the scheme and the
  longest run of these characters, which must not be empty.
\<close>

definition is_url_char :: "char \<Rightarrow> bool" where
  "is_url_char c =
     (is_lower c \<or> is_upper c \<or> is_digit c
      \<or> (let n = (of_char c :: nat) in 36 \<le> n \<and> n \<le> 95)
      \<or> c \<in> set ''@.&+''
      \<or> c \<in> set (''!*'' @ bslash @ ''(),''))"

definition match_scheme :: "string \<Rightarrow> string option" where
  "match_scheme s =
     (if startswith s ''https://'' then Some ''https://''
      else if startswith s ''http://'' then Some ''http://''
      else None)"

definition match_url :: "string \<Rightarrow> string option" where
  "match_url s =
     (case match_scheme s of
        None \<Rightarrow> None
      | Some sch \<Rightarrow>
          (let body = takeWhile is_url_char (drop (length sch) s)
           in if body = [] then None else Some (sch @ body)))"

text \<open>\<open>re.findall\<close>: the matches from left to right, each search resuming where the
  last match ended.\<close>

function find_urls :: "string \<Rightarrow> string list" where
  "find_urls [] = []"
| "find_urls (c # cs) =
     (case match_url (c # cs) of
        None \<Rightarrow> find_urls cs
      | Some u \<Rightarrow> u # find_urls (drop (length u) (c # cs)))"
  by pat_completeness auto
termination
  by (relation "measure length")
    (auto simp: match_url_def Let_def split: option.splits if_splits)

text \<open>
  \<open>urllib.parse.urlparse(u).netloc\<close>. The scheme is split off at the first colon
  when the text before it is a letter followed by scheme characters; after \<open>//\<close> the
  netloc runs to the first \<open>/\<close>, \<open>?\<close> or \<open>#\<close>. A netloc with one square bracket
  and not the other raises \<open>ValueError\<close>. From Python 3.11.4 on, a netloc with both
  brackets has the host between them validated as well, and \<open>ValueError\<close> is raised
  when it is refused; that validation is the parameter \<open>chk\<close> (constantly true for
  the earlier versions, see \<open>no_host_check\<close>).
\<close>

datatype error = ValueError

definition is_scheme_char :: "char \<Rightarrow> bool" where
  "is_scheme_char c = (is_lower c \<or> is_upper c \<or> is_digit c \<or> c \<in> set ''+-.'')"

definition strip_scheme :: "string \<Rightarrow> string" where
  "strip_scheme u =
     (let pre = takeWhile (\<lambda>c. c \<noteq> CHR '':'') u
      in case pre of
           [] \<Rightarrow> u
         | c # cs \<Rightarrow>
             if CHR '':'' \<in> set u \<and> (is_lower c \<or> is_upper c) \<and> list_all is_scheme_char pre
             then drop (Suc (length pre)) u
             else u)"

definition split_netloc :: "string \<Rightarrow> string" where
  "split_netloc u =
     (let rest = strip_scheme u
      in if startswith rest ''//''
         then takeWhile (\<lambda>c. c \<notin> set ''/?#'') (drop 2 rest)
         else [])"

definition bracketed_host :: "string \<Rightarrow> string" where
  "bracketed_host netloc =
     takeWhile (\<lambda>c. c \<noteq> CHR '']'') (drop 1 (dropWhile (\<lambda>c. c \<noteq> CHR ''['') netloc))"

definition no_host_check :: "string \<Rightarrow> bool" where
  "no_host_check h = True"

definition urlparse_netloc :: "(string \<Rightarrow> bool) \<Rightarrow> string \<Rightarrow> error + string" where
  "urlparse_netloc chk u =
     (let netloc = split_netloc u;
          lb = (CHR ''['' \<in> set netloc);
          rb = (CHR '']'' \<in> set netloc)
      in if (lb \<and> \<not> rb) \<or> (rb \<and> \<not> lb) then Inl ValueError
         else if lb \<and> rb \<and> \<not> chk (bracketed_host netloc) then Inl ValueError
         else Inr netloc)"

text \<open>One entry of the result list of \<open>analyze_urls\<close>.\<close>

record url_finding =
  url :: string
  risk_score :: real
  reasons :: "string list"

fun tld_loop :: "string list \<Rightarrow> string \<Rightarrow> real \<times> string list \<Rightarrow> real \<times> string list" where
  "tld_loop [] domain acc = acc"
| "tld_loop (tld # tlds) domain acc =
     (if endswith domain tld
      then tld_loop tlds domain (fst acc + 0.4, snd acc @ [''Suspicious TLD: '' @ tld])
      else tld_loop tlds domain acc)"

text \<open>The pattern \<open>^\d+\.\d+\.\d+\.\d+$\<close> of the IP address check.\<close>

definition ip_pattern :: "atom list" where
  "ip_pattern =
     [Bol, Rep 1 Digit, Str ''.'', Rep 1 Digit, Str ''.'', Rep 1 Digit, Str ''.'',
      Rep 1 Digit, Eol]"

definition ip_check :: "string \<Rightarrow> real \<times> string list \<Rightarrow> real \<times> string list" where
  "ip_check netloc acc =
     (if re_match False ip_pattern netloc
      then (fst acc + 0.5, snd acc @ [''IP address used instead of domain name''])
      else acc)"

definition subdomain_check :: "string \<Rightarrow> real \<times> string list \<Rightarrow> real \<times> string list" where
  "subdomain_check netloc acc =
     (if count_list netloc CHR ''.'' > 2
      then (fst acc + 0.3, snd acc @ [''Multiple subdomains detected''])
      else acc)"

definition encoding_check :: "string \<Rightarrow> real \<times> string list \<Rightarrow> real \<times> string list" where
  "encoding_check u acc =
     (if CHR ''%'' \<in> set u
      then (fst acc + 0.3, snd acc @ [''URL contains encoded characters''])
      else acc)"

text \<open>The body of the loop of \<open>analyze_urls\<close> for one extracted URL.\<close>

definition analyze_url :: "detector \<Rightarrow> (string \<Rightarrow> bool) \<Rightarrow> string \<Rightarrow> error + url_finding" where
  "analyze_url self chk u =
     (case urlparse_netloc chk u of
        Inl e \<Rightarrow> Inl e
      | Inr netloc \<Rightarrow>
          (let domain = str_lower netloc;
               acc = encoding_check u
                       (subdomain_check netloc
                          (ip_check netloc (tld_loop (suspicious_tlds self) domain (0, []))))
           in Inr \<lparr>url = u, risk_score = fst acc, reasons = snd acc\<rparr>))"

fun urls_loop ::
  "detector \<Rightarrow> (string \<Rightarrow> bool) \<Rightarrow> string list \<Rightarrow> url_finding list \<Rightarrow> error + url_finding list" where
  "urls_loop self chk [] results = Inr results"
| "urls_loop self chk (u # us) results =
     (case analyze_url self chk u of
        Inl e \<Rightarrow> Inl e
      | Inr f \<Rightarrow> urls_loop self chk us (results @ [f]))"

definition analyze_urls :: "detector \<Rightarrow> (string \<Rightarrow> bool) \<Rightarrow> string \<Rightarrow> error + url_finding list" where
  "analyze_urls self chk text = urls_loop self chk (find_urls text) []"

section \<open>The whole analysis\<close>

text \<open>
  The report of \<open>analyze_message\<close>. The entries \<open>keyword_analysis\<close> and
  \<open>header_analysis\<close> are dicts with the key \<open>score\<close> (here \<open>kw_score\<close> and
  \<open>hd_score\<close>); \<open>header_analysis\<close> stays the empty list it starts as when the
  header analysis is skipped, which is \<open>None\<close> here.
\<close>

record keyword_result =
  kw_score :: real
  detected_keywords :: "string list"

record header_result =
  hd_score :: real
  hd_reasons :: "string list"

record report =
  overall_risk_score :: real
  risk_level :: string
  url_analysis :: "url_finding list"
  keyword_analysis :: keyword_result
  header_analysis :: "header_result option"
  recommendations :: "string list"

text \<open>\<open>if headers:\<close> holds for a mapping that is neither \<open>None\<close> nor empty.\<close>

definition truthy :: "headers option \<Rightarrow> bool" where
  "truthy headers = (case headers of None \<Rightarrow> False | Some hs \<Rightarrow> hs \<noteq> [])"

definition header_part :: "detector \<Rightarrow> headers option \<Rightarrow> header_result option" where
  "header_part self headers =
     (case headers of
        None \<Rightarrow> None
      | Some hs \<Rightarrow>
          if truthy headers
          then (let (header_score, header_reasons) = analyze_headers self hs
                in Some \<lparr>hd_score = header_score, hd_reasons = header_reasons\<rparr>)
          else None)"

definition analyze_message ::
  "detector \<Rightarrow> (string \<Rightarrow> bool) \<Rightarrow> string \<Rightarrow> headers option \<Rightarrow> error + report" where
  "analyze_message self chk message_text headers =
     (case analyze_urls self chk message_text of
        Inl e \<Rightarrow> Inl e
      | Inr url_results \<Rightarrow>
          (let url_score = sum_list (map risk_score url_results);
               total1 = 0 + url_score;
               (keyword_score, detected) = analyze_keywords self message_text;
               total2 = total1 + keyword_score;
               hdr = header_part self headers;
               total3 = (case hdr of None \<Rightarrow> total2 | Some h \<Rightarrow> total2 + hd_score h);
               overall = min total3 1.0;
               (level, recommendation) =
                 (if overall \<ge> 0.7 then (''High'', ''Block this message immediately'')
                  else if overall \<ge> 0.4
                  then (''Medium'', ''Review message carefully before taking any action'')
                  else (''Low'',
                        ''Message appears to be legitimate but always exercise caution''))
           in Inr \<lparr>overall_risk_score = overall,
                   risk_level = level,
                   url_analysis = url_results,
                   keyword_analysis = \<lparr>kw_score = keyword_score, detected_keywords = detected\<rparr>,
                   header_analysis = hdr,
                   recommendations = [recommendation]\<rparr>))"


section \<open>The rules in the words of the specification\<close>

text \<open>
  The three header checks as the specification lists them: whether the Reply-To check
  fires, the sender patterns that match, and the authenticity headers that are absent.
\<close>

definition reply_to_mismatch :: "headers \<Rightarrow> bool" where
  "reply_to_mismatch hs =
     (case (map_of hs ''from'', map_of hs ''reply-to'') of
        (Some f, Some r) \<Rightarrow> last_segment f \<noteq> last_segment r
      | _ \<Rightarrow> False)"

definition matching_patterns :: "detector \<Rightarrow> headers \<Rightarrow> (string \<times> atom list) list" where
  "matching_patterns self hs =
     (case map_of hs ''from'' of
        None \<Rightarrow> []
      | Some f \<Rightarrow> filter (\<lambda>sp. re_search True (snd sp) f) (suspicious_sender_patterns self))"

definition missing_headers :: "headers \<Rightarrow> string list" where
  "missing_headers hs = filter (\<lambda>h. map_of hs h = None) important_headers"

text \<open>
  The four URL rules: the suffixes of the table that end the lower-cased netloc, the
  dotted-quad test, the count of dots, and the percent sign.
\<close>

definition matching_tlds :: "detector \<Rightarrow> string \<Rightarrow> string list" where
  "matching_tlds self netloc = filter (endswith (str_lower netloc)) (suspicious_tlds self)"

definition rule_score :: "detector \<Rightarrow> string \<Rightarrow> string \<Rightarrow> real" where
  "rule_score self u netloc =
     0.4 * real (length (matching_tlds self netloc))
     + (if re_match False ip_pattern netloc then 0.5 else 0)
     + (if count_list netloc CHR ''.'' > 2 then 0.3 else 0)
     + (if CHR ''%'' \<in> set u then 0.3 else 0)"

definition rule_reasons :: "detector \<Rightarrow> string \<Rightarrow> string \<Rightarrow> string list" where
  "rule_reasons self u netloc =
     map (\<lambda>tld. ''Suspicious TLD: '' @ tld) (matching_tlds self netloc)
     @ (if re_match False ip_pattern netloc
        then [''IP address used instead of domain name''] else [])
     @ (if count_list netloc CHR ''.'' > 2 then [''Multiple subdomains detected''] else [])
     @ (if CHR ''%'' \<in> set u then [''URL contains encoded characters''] else [])"

text \<open>The number of labels of a netloc: the segments that its dots separate.\<close>

definition label_count :: "string \<Rightarrow> nat" where
  "label_count netloc = length (py_split CHR ''.'' netloc)"

text \<open>The strings \<open>us\<close> occur in \<open>s\<close> one after the other, without overlap.\<close>

fun occur_in_order :: "string list \<Rightarrow> string \<Rightarrow> bool" where
  "occur_in_order [] s = True"
| "occur_in_order (u # us) s = (\<exists>a b. s = a @ u @ b \<and> occur_in_order us b)"

text \<open>
  The header score of the aggregation: the score of the header analyzer when headers
  are given (a mapping that is not empty), and 0 otherwise.
\<close>

definition header_score :: "detector \<Rightarrow> headers option \<Rightarrow> real" where
  "header_score self headers =
     (case headers of
        None \<Rightarrow> 0
      | Some hs \<Rightarrow> if hs = [] then 0 else fst (analyze_headers self hs))"

text \<open>
  The domain portion of a netloc, as \<open>urlparse(u).hostname\<close> splits it off (before
  lower-casing): the text after the last \<open>@\<close>, then the text between square
  brackets if there is an opening bracket, and the text before the first colon
  otherwise.
\<close>

definition after_last_at :: "string \<Rightarrow> string" where
  "after_last_at v = rev (takeWhile (\<lambda>c. c \<noteq> CHR ''@'') (rev v))"

definition host_of :: "string \<Rightarrow> string" where
  "host_of netloc =
     (let hostinfo = after_last_at netloc
      in if CHR ''['' \<in> set hostinfo
         then takeWhile (\<lambda>c. c \<noteq> CHR '']'') (drop 1 (dropWhile (\<lambda>c. c \<noteq> CHR ''['') hostinfo))
         else takeWhile (\<lambda>c. c \<noteq> CHR '':'') hostinfo)"

definition domain_of :: "string \<Rightarrow> string" where
  "domain_of u = host_of (split_netloc u)"

text \<open>A bare dotted quad: four runs of decimal digits, none empty, separated by dots.\<close>

definition dotted_quad :: "string \<Rightarrow> bool" where
  "dotted_quad s =
     (let parts = py_split CHR ''.'' s
      in length parts = 4 \<and> list_all (\<lambda>p. p \<noteq> [] \<and> list_all is_digit p) parts)"

text \<open>
  The increments of the four URL rules on the domain portion, in the order in which
  the rules are applied, and the reasons that go with them.
\<close>

definition domain_increments :: "detector \<Rightarrow> string \<Rightarrow> real list" where
  "domain_increments self u =
     (let d = domain_of u
      in map (\<lambda>tld. 0.4) (filter (\<lambda>tld. suffix tld (str_lower d)) (suspicious_tlds self))
         @ (if dotted_quad d then [0.5] else [])
         @ (if count_list d CHR ''.'' > 2 then [0.3] else [])
         @ (if CHR ''%'' \<in> set u then [0.3] else []))"

definition domain_reasons :: "detector \<Rightarrow> string \<Rightarrow> string list" where
  "domain_reasons self u =
     (let d = domain_of u
      in map (\<lambda>tld. ''Suspicious TLD: '' @ tld)
             (filter (\<lambda>tld. suffix tld (str_lower d)) (suspicious_tlds self))
         @ (if dotted_quad d then [''IP address used instead of domain name''] else [])
         @ (if count_list d CHR ''.'' > 2 then [''Multiple subdomains detected''] else [])
         @ (if CHR ''%'' \<in> set u then [''URL contains encoded characters''] else []))"

section \<open>Properties\<close>

subsection \<open>Calls are deterministic and leave the detector as it was\<close>



subsection \<open>Strings and the keyword loop\<close>

lemma startswith_iff: "startswith s p \<longleftrightarrow> (\<exists>b. s = p @ b)"
  by (induction s p rule: startswith.induct) auto

lemma str_in_iff: "str_in p s \<longleftrightarrow> (\<exists>a b. s = a @ p @ b)"
proof (induction s)
  case Nil
  then show ?case by auto
next
  case (Cons c cs)
  show ?case
  proof
    assume "str_in p (c # cs)"
    then consider "startswith (c # cs) p" | "str_in p cs" by auto
    then show "\<exists>a b. c # cs = a @ p @ b"
    proof cases
      case 1
      then obtain b where "c # cs = p @ b" by (auto simp: startswith_iff)
      then have "c # cs = [] @ p @ b" by simp
      then show ?thesis by blast
    next
      case 2
      then obtain a b where "cs = a @ p @ b" using Cons.IH by auto
      then have "c # cs = (c # a) @ p @ b" by simp
      then show ?thesis by blast
    qed
  next
    assume "\<exists>a b. c # cs = a @ p @ b"
    then obtain a b where ab: "c # cs = a @ p @ b" by auto
    show "str_in p (c # cs)"
    proof (cases a)
      case Nil
      then have "startswith (c # cs) p" using ab by (auto simp: startswith_iff)
      then show ?thesis by simp
    next
      case (Cons x xs)
      then have "cs = xs @ p @ b" using ab by simp
      then show ?thesis using Cons.IH by auto
    qed
  qed
qed

lemma keywords_loop_eq:
  "keywords_loop items t s d =
     (s + sum_list (map snd (filter (\<lambda>kw. str_in (fst kw) t) items)),
      d @ map fst (filter (\<lambda>kw. str_in (fst kw) t) items))"
  by (induction items arbitrary: s d) auto

lemma keyword_table_distinct: "distinct (map fst keyword_table)"
  by (simp add: keyword_table_def)

lemma keyword_table_nonempty_keys: "[] \<notin> set (map fst keyword_table)"
  by (simp add: keyword_table_def)

lemma keyword_table_nonneg: "\<forall>kw \<in> set keyword_table. 0 \<le> snd kw"
  by (simp add: keyword_table_def)

lemma filter_empty_text:
  "[] \<notin> set (map fst items) \<Longrightarrow> filter (\<lambda>kw. str_in (fst kw) []) items = []"
  by (induction items) auto

subsection \<open>Keyword analysis\<close>

text \<open>
  Claim C5. \<open>analyze_keywords\<close> lower-cases the text and goes through the keyword
  table in definition order: the score is the sum of the weights of exactly the
  keywords that occur in the lowered text as substrings, and \<open>detected_keywords\<close> is
  exactly those keywords, in table order. For the table of the source no keyword is
  detected twice, whatever the number of its occurrences, and the empty text gives
  the score 0 and no keyword.
\<close>

theorem analyze_keywords_table_order:
  "fst (analyze_keywords self text)
     = sum_list (map snd (filter (\<lambda>kw. \<exists>a b. str_lower text = a @ fst kw @ b)
                                 (suspicious_keywords self)))
   \<and> snd (analyze_keywords self text)
     = map fst (filter (\<lambda>kw. \<exists>a b. str_lower text = a @ fst kw @ b)
                       (suspicious_keywords self))
   \<and> distinct (snd (analyze_keywords PhishingDetector text))
   \<and> analyze_keywords PhishingDetector [] = (0, [])"
proof -
  have d: "distinct (snd (analyze_keywords PhishingDetector text))"
    using keyword_table_distinct
    by (simp add: analyze_keywords_def keywords_loop_eq PhishingDetector_def distinct_map_filter)
  have e: "analyze_keywords PhishingDetector [] = (0, [])"
    using filter_empty_text [OF keyword_table_nonempty_keys]
    by (simp add: analyze_keywords_def keywords_loop_eq PhishingDetector_def str_lower_def)
  show ?thesis
    using d e by (simp add: analyze_keywords_def keywords_loop_eq str_in_iff)
qed

theorem analyze_keywords_table_order_witness:
  "analyze_keywords PhishingDetector ''Click here, CLICK HERE to Verify Your Account! urgent''
     = (0.9, [''urgent'', ''verify your account'', ''click here''])
   \<and> distinct (snd (analyze_keywords PhishingDetector
        ''Click here, CLICK HERE to Verify Your Account! urgent''))
   \<and> analyze_keywords PhishingDetector [] = (0, [])"
proof -
  note t = analyze_keywords_table_order
      [of PhishingDetector "''Click here, CLICK HERE to Verify Your Account! urgent''"]
  have e: "analyze_keywords PhishingDetector ''Click here, CLICK HERE to Verify Your Account! urgent''
     = (0.9, [''urgent'', ''verify your account'', ''click here''])"
    by code_simp
  from t have d: "distinct (snd (analyze_keywords PhishingDetector
        ''Click here, CLICK HERE to Verify Your Account! urgent''))"
    by blast
  from t have z: "analyze_keywords PhishingDetector [] = (0, [])"
    by blast
  from e d z show ?thesis by blast
qed

subsection \<open>Header analysis\<close>

lemma py_split_nonempty: "py_split sep s \<noteq> []"
  by (induction s) (auto split: list.splits)

lemma py_split_no_sep: "sep \<notin> set s \<Longrightarrow> py_split sep s = [s]"
  by (induction s) auto

lemma length_py_split: "length (py_split sep s) = Suc (count_list s sep)"
  by (induction s) (auto split: list.splits)

lemma last_py_split_append:
  "last (py_split sep (a @ sep # b)) = last (py_split sep b)"
proof (induction a)
  case Nil
  show ?case using py_split_nonempty [of sep b] by simp
next
  case (Cons c cs)
  have "2 \<le> length (py_split sep (cs @ sep # b))"
    by (simp add: length_py_split)
  then obtain w w' ws where ws: "py_split sep (cs @ sep # b) = w # w' # ws"
    by (cases "py_split sep (cs @ sep # b)" rule: list.exhaust)
       (auto simp: Suc_le_eq neq_Nil_conv)
  show ?case using Cons ws by simp
qed

lemma last_segment_no_at: "CHR ''@'' \<notin> set v \<Longrightarrow> last_segment v = v"
  by (simp add: last_segment_def py_split_no_sep)

lemma last_segment_after_last_at:
  "CHR ''@'' \<notin> set b \<Longrightarrow> last_segment (a @ CHR ''@'' # b) = b"
  by (simp add: last_segment_def last_py_split_append py_split_no_sep)

lemma sender_loop_eq:
  "sender_loop ps f acc =
     (fst acc + 0.3 * real (length (filter (\<lambda>sp. re_search True (snd sp) f) ps)),
      snd acc @ map (\<lambda>sp. ''Suspicious sender pattern: '' @ fst sp)
                    (filter (\<lambda>sp. re_search True (snd sp) f) ps))"
  by (induction ps arbitrary: acc) (auto simp: algebra_simps)

lemma missing_loop_eq:
  "missing_loop names hs acc =
     (fst acc + 0.2 * real (length (filter (\<lambda>h. map_of hs h = None) names)),
      snd acc @ map (\<lambda>h. ''Missing important header: '' @ h)
                    (filter (\<lambda>h. map_of hs h = None) names))"
  by (induction names arbitrary: acc) (auto simp: algebra_simps)

lemma reply_to_check_eq:
  "reply_to_check hs acc =
     (fst acc + (if reply_to_mismatch hs then 0.4 else 0),
      snd acc @ (if reply_to_mismatch hs then [''Reply-To domain mismatch''] else []))"
  by (auto simp: reply_to_check_def reply_to_mismatch_def Let_def split: option.splits)

lemma sender_check_eq:
  "sender_check self hs acc =
     (fst acc + 0.3 * real (length (matching_patterns self hs)),
      snd acc @ map (\<lambda>sp. ''Suspicious sender pattern: '' @ fst sp) (matching_patterns self hs))"
  by (auto simp: sender_check_def matching_patterns_def sender_loop_eq split: option.splits)

lemma analyze_headers_eq:
  "analyze_headers self hs =
     ((if reply_to_mismatch hs then 0.4 else 0)
      + 0.3 * real (length (matching_patterns self hs))
      + 0.2 * real (length (missing_headers hs)),
      (if reply_to_mismatch hs then [''Reply-To domain mismatch''] else [])
      @ map (\<lambda>sp. ''Suspicious sender pattern: '' @ fst sp) (matching_patterns self hs)
      @ map (\<lambda>h. ''Missing important header: '' @ h) (missing_headers hs))"
  by (simp add: analyze_headers_def missing_loop_eq sender_check_eq reply_to_check_eq
      missing_headers_def)

lemma analyze_headers_nonneg: "0 \<le> fst (analyze_headers self hs)"
  by (simp add: analyze_headers_eq)



text \<open>
  A header value without \<open>@\<close> does not give an empty domain segment: the split has
  the whole value as its only segment. With \<open>from\<close> and \<open>reply-to\<close> both lacking
  \<open>@\<close> and all three authenticity headers present, two empty segments would be
  equal and add nothing, yet the mismatch is reported and 0.4 added.
\<close>

theorem last_segment_without_at_counterexample:
  "last_segment ''alice'' = ''alice''
   \<and> last_segment ''alice'' \<noteq> []
   \<and> analyze_headers PhishingDetector
        [(''from'', ''alice''), (''reply-to'', ''bob''), (''received'', ''by mx''),
         (''authentication-results'', ''pass''), (''dkim-signature'', ''v=1'')]
       = (0.4, [''Reply-To domain mismatch''])"
  by code_simp

text \<open>
  Claim C4, as the code has it. When \<open>from\<close> and \<open>reply-to\<close> are both present and a
  value holds no \<open>@\<close>, the domain segment extracted for that value is the whole
  value; no step of the check can fail, and the comparison proceeds as for any other
  values, adding 0.4 and the reason when the two segments differ.
\<close>

theorem reply_to_check_without_at:
  assumes "map_of hs ''from'' = Some f" and "map_of hs ''reply-to'' = Some r"
  shows "(CHR ''@'' \<notin> set f \<longrightarrow> last_segment f = f)
   \<and> (CHR ''@'' \<notin> set r \<longrightarrow> last_segment r = r)
   \<and> reply_to_check hs acc
       = (if last_segment f \<noteq> last_segment r
          then (fst acc + 0.4, snd acc @ [''Reply-To domain mismatch''])
          else acc)"
  using assms by (simp add: last_segment_no_at reply_to_check_def)

theorem reply_to_check_without_at_witness:
  "last_segment ''alice'' = ''alice''
   \<and> last_segment ''x@example.com'' = ''example.com''
   \<and> reply_to_check [(''from'', ''alice''), (''reply-to'', ''x@example.com'')] (0, [])
       = (0.4, [''Reply-To domain mismatch''])"
proof -
  have f: "map_of [(''from'', ''alice''), (''reply-to'', ''x@example.com'')] ''from'' = Some ''alice''"
    by simp
  have r: "map_of [(''from'', ''alice''), (''reply-to'', ''x@example.com'')] ''reply-to''
             = Some ''x@example.com''"
    by simp
  note t = reply_to_check_without_at [OF f r, of "(0, [])"]
  have a: "CHR ''@'' \<notin> set ''alice''" by simp
  have e: "last_segment ''x@example.com'' = ''example.com''" by code_simp
  from t a have l: "last_segment ''alice'' = ''alice''" by blast
  from t have "reply_to_check [(''from'', ''alice''), (''reply-to'', ''x@example.com'')] (0, [])
       = (if last_segment ''alice'' \<noteq> last_segment ''x@example.com''
          then (fst (0::real, []::string list) + 0.4,
                snd (0::real, []::string list) @ [''Reply-To domain mismatch''])
          else (0, []))"
    by blast
  with l e have c: "reply_to_check [(''from'', ''alice''), (''reply-to'', ''x@example.com'')] (0, [])
       = (0.4, [''Reply-To domain mismatch''])"
    by simp
  from l e c show ?thesis by blast
qed

text \<open>
  Claim C9. An empty header mapping is treated as no headers at all: the two calls of
  \<open>analyze_message\<close> have the same outcome, the header analysis is skipped and
  \<open>header_analysis\<close> stays empty in both, although \<open>analyze_headers\<close> on the empty
  mapping would have scored 0.6 for the three absent authenticity headers.
\<close>

theorem empty_headers_skipped:
  "analyze_message self chk message_text (Some []) = analyze_message self chk message_text None
   \<and> header_part self (Some []) = None
   \<and> header_part self None = None
   \<and> fst (analyze_headers self []) = 0.6"
proof -
  have a: "header_part self (Some []) = None"
    by (simp add: header_part_def truthy_def)
  have b: "header_part self None = None"
    by (simp add: header_part_def)
  have c: "analyze_message self chk message_text (Some [])
             = analyze_message self chk message_text None"
    unfolding analyze_message_def a b ..
  have d: "fst (analyze_headers self []) = 0.6"
    by (simp add: analyze_headers_eq reply_to_mismatch_def matching_patterns_def
        missing_headers_def important_headers_def)
  from a b c d show ?thesis by blast
qed

theorem empty_headers_skipped_witness:
  "analyze_message PhishingDetector no_host_check ''account suspended'' (Some [])
     = Inr \<lparr>overall_risk_score = 0.4, risk_level = ''Medium'', url_analysis = [],
            keyword_analysis = \<lparr>kw_score = 0.4, detected_keywords = [''account suspended'']\<rparr>,
            header_analysis = None,
            recommendations = [''Review message carefully before taking any action'']\<rparr>
   \<and> fst (analyze_headers PhishingDetector []) = 0.6"
proof -
  note t = empty_headers_skipped [of PhishingDetector no_host_check "''account suspended''"]
  have e: "analyze_message PhishingDetector no_host_check ''account suspended'' None
     = Inr \<lparr>overall_risk_score = 0.4, risk_level = ''Medium'', url_analysis = [],
            keyword_analysis = \<lparr>kw_score = 0.4, detected_keywords = [''account suspended'']\<rparr>,
            header_analysis = None,
            recommendations = [''Review message carefully before taking any action'']\<rparr>"
    by code_simp
  from t have a: "analyze_message PhishingDetector no_host_check ''account suspended'' (Some [])
     = analyze_message PhishingDetector no_host_check ''account suspended'' None"
    by blast
  from t have b: "fst (analyze_headers PhishingDetector []) = 0.6" by blast
  from a e b show ?thesis by simp
qed

subsection \<open>URL analysis\<close>

lemma tld_loop_eq:
  "tld_loop tlds d acc =
     (fst acc + 0.4 * real (length (filter (endswith d) tlds)),
      snd acc @ map (\<lambda>tld. ''Suspicious TLD: '' @ tld) (filter (endswith d) tlds))"
  by (induction tlds arbitrary: acc) (auto simp: algebra_simps)

lemma urlparse_netloc_Inr: "urlparse_netloc chk u = Inr n \<Longrightarrow> n = split_netloc u"
  by (auto simp: urlparse_netloc_def Let_def split: if_splits)

lemma checks_eq:
  "encoding_check u (subdomain_check n (ip_check n (tld_loop tlds (str_lower n) (0, []))))
     = (0.4 * real (length (filter (endswith (str_lower n)) tlds))
        + (if re_match False ip_pattern n then 0.5 else 0)
        + (if count_list n CHR ''.'' > 2 then 0.3 else 0)
        + (if CHR ''%'' \<in> set u then 0.3 else 0),
        map (\<lambda>tld. ''Suspicious TLD: '' @ tld) (filter (endswith (str_lower n)) tlds)
        @ (if re_match False ip_pattern n
           then [''IP address used instead of domain name''] else [])
        @ (if count_list n CHR ''.'' > 2 then [''Multiple subdomains detected''] else [])
        @ (if CHR ''%'' \<in> set u then [''URL contains encoded characters''] else []))"
  by (simp add: tld_loop_eq ip_check_def subdomain_check_def encoding_check_def)

lemma analyze_url_eq:
  "analyze_url self chk u =
     (case urlparse_netloc chk u of
        Inl e \<Rightarrow> Inl e
      | Inr netloc \<Rightarrow>
          Inr \<lparr>url = u, risk_score = rule_score self u netloc,
               reasons = rule_reasons self u netloc\<rparr>)"
  unfolding analyze_url_def Let_def checks_eq rule_score_def rule_reasons_def matching_tlds_def
  by (simp split: sum.splits)

lemma analyze_url_Inr:
  assumes "analyze_url self chk u = Inr f"
  shows "urlparse_netloc chk u = Inr (split_netloc u)
   \<and> f = \<lparr>url = u, risk_score = rule_score self u (split_netloc u),
            reasons = rule_reasons self u (split_netloc u)\<rparr>"
proof (cases "urlparse_netloc chk u")
  case (Inl e)
  then show ?thesis using assms by (simp add: analyze_url_eq)
next
  case (Inr n)
  then have "n = split_netloc u" by (rule urlparse_netloc_Inr)
  then show ?thesis using assms Inr by (auto simp: analyze_url_eq)
qed

lemma urls_loop_Inr:
  "urls_loop self chk us acc = Inr fs \<Longrightarrow>
     \<exists>gs. fs = acc @ gs \<and> map url gs = us
          \<and> (\<forall>g \<in> set gs. analyze_url self chk (url g) = Inr g)"
proof (induction us arbitrary: acc)
  case Nil
  then have "fs = acc" by simp
  then have "fs = acc @ [] \<and> map url [] = []
      \<and> (\<forall>g \<in> set ([] :: url_finding list). analyze_url self chk (url g) = Inr g)"
    by simp
  then show ?case by blast
next
  case (Cons u us)
  show ?case
  proof (cases "analyze_url self chk u")
    case (Inl e)
    then show ?thesis using Cons.prems by simp
  next
    case (Inr f)
    then have r: "urls_loop self chk us (acc @ [f]) = Inr fs"
      using Cons.prems by simp
    from Cons.IH [OF r] obtain gs where g1: "fs = (acc @ [f]) @ gs"
      and g2: "map url gs = us"
      and g3: "\<forall>g \<in> set gs. analyze_url self chk (url g) = Inr g"
      by blast
    have ff: "f = \<lparr>url = u, risk_score = rule_score self u (split_netloc u),
            reasons = rule_reasons self u (split_netloc u)\<rparr>"
      using analyze_url_Inr [OF Inr] by blast
    have uf: "url f = u" by (subst ff) simp
    have a: "fs = acc @ (f # gs)" using g1 by simp
    have b: "map url (f # gs) = u # us" using g2 uf by simp
    have "analyze_url self chk (url f) = Inr f" unfolding uf by (rule Inr)
    then have c: "\<forall>g \<in> set (f # gs). analyze_url self chk (url g) = Inr g"
      using g3 by simp
    show ?thesis
    proof (intro exI conjI)
      show "fs = acc @ (f # gs)" by (rule a)
      show "map url (f # gs) = u # us" by (rule b)
      show "\<forall>g \<in> set (f # gs). analyze_url self chk (url g) = Inr g" by (rule c)
    qed
  qed
qed

lemma analyze_urls_Inr:
  assumes "analyze_urls self chk text = Inr fs"
  shows "map url fs = find_urls text"
    and "\<forall>f \<in> set fs. analyze_url self chk (url f) = Inr f"
  using urls_loop_Inr [of self chk "find_urls text" "[]" fs] assms
  by (auto simp: analyze_urls_def)

lemma rule_score_nonneg: "0 \<le> rule_score self u n"
  by (simp add: rule_score_def)

lemma finding_score:
  assumes "analyze_urls self chk text = Inr fs" and "f \<in> set fs"
  shows "risk_score f = rule_score self (url f) (split_netloc (url f))"
    and "reasons f = rule_reasons self (url f) (split_netloc (url f))"
    and "urlparse_netloc chk (url f) = Inr (split_netloc (url f))"
proof -
  from analyze_urls_Inr(2) [OF assms(1)] assms(2)
  have a: "analyze_url self chk (url f) = Inr f" by blast
  note b = analyze_url_Inr [OF a]
  from b have c: "f = \<lparr>url = url f, risk_score = rule_score self (url f) (split_netloc (url f)),
            reasons = rule_reasons self (url f) (split_netloc (url f))\<rparr>" by blast
  show "risk_score f = rule_score self (url f) (split_netloc (url f))"
    by (subst c) simp
  show "reasons f = rule_reasons self (url f) (split_netloc (url f))"
    by (subst c) simp
  show "urlparse_netloc chk (url f) = Inr (split_netloc (url f))"
    using b by blast
qed

lemma url_scores_nonneg:
  assumes "analyze_urls self chk text = Inr fs"
  shows "0 \<le> sum_list (map risk_score fs)"
proof -
  have "\<forall>f \<in> set fs. 0 \<le> risk_score f"
    using finding_score(1) [OF assms] rule_score_nonneg by simp
  then show ?thesis by (intro sum_list_nonneg) auto
qed



lemma match_url_prefix: "match_url s = Some u \<Longrightarrow> \<exists>b. s = u @ b"
proof -
  assume a: "match_url s = Some u"
  then obtain sch where sch: "match_scheme s = Some sch"
    and u: "u = sch @ takeWhile is_url_char (drop (length sch) s)"
    by (auto simp: match_url_def Let_def split: option.splits if_splits)
  from sch have "startswith s sch"
    by (auto simp: match_scheme_def split: if_splits)
  then obtain b where b: "s = sch @ b" by (auto simp: startswith_iff)
  have "s = u @ dropWhile is_url_char b"
    using b u by simp
  then show ?thesis by blast
qed

lemma occur_in_order_prepend: "occur_in_order us s \<Longrightarrow> occur_in_order us (p @ s)"
proof (cases us)
  case Nil
  then show ?thesis by simp
next
  case (Cons u rest)
  assume "occur_in_order us s"
  then obtain a b where "s = a @ u @ b" "occur_in_order rest b" using Cons by auto
  then have "p @ s = (p @ a) @ u @ b \<and> occur_in_order rest b" by simp
  then show ?thesis using Cons by (metis occur_in_order.simps(2))
qed

lemma find_urls_in_order: "occur_in_order (find_urls s) s"
proof (induction s rule: find_urls.induct)
  case 1
  show ?case by simp
next
  case (2 c cs)
  show ?case
  proof (cases "match_url (c # cs)")
    case None
    then have "occur_in_order (find_urls cs) cs" using 2 by simp
    then have "occur_in_order (find_urls cs) ([c] @ cs)" by (rule occur_in_order_prepend)
    then show ?thesis using None by simp
  next
    case (Some u)
    then obtain b where b: "c # cs = u @ b" using match_url_prefix by blast
    then have d: "drop (length u) (c # cs) = b" by (metis append_eq_conv_conj)
    have "occur_in_order (find_urls b) b" using 2(2) [OF Some] d by simp
    then have "c # cs = [] @ u @ b \<and> occur_in_order (find_urls b) b" using b by simp
    then have "occur_in_order (u # find_urls b) (c # cs)"
      by (metis occur_in_order.simps(2))
    then show ?thesis using Some d by simp
  qed
qed

lemma run_length_no_dot:
  "m \<le> run_length False Digit s \<Longrightarrow> count_list (drop m s) CHR ''.'' = count_list s CHR ''.''"
proof (induction s arbitrary: m)
  case Nil
  then show ?case by simp
next
  case (Cons c cs)
  show ?case
  proof (cases m)
    case 0
    then show ?thesis by simp
  next
    case (Suc k)
    with Cons.prems have d: "is_digit c" and k: "k \<le> run_length False Digit cs"
      by (auto split: if_splits)
    from d have "c \<noteq> CHR ''.''" by (auto simp: is_digit_def)
    with Cons.IH [OF k] Suc show ?thesis by simp
  qed
qed

lemma match_rep_digit:
  assumes "match_here False (Rep n Digit # p) b s"
  shows "\<exists>t b'. match_here False p b' t \<and> count_list t CHR ''.'' = count_list s CHR ''.''"
proof -
  from assms have "\<exists>m \<in> {n ..< Suc (run_length False Digit s)}.
      match_here False p (b \<and> m = 0) (drop m s)"
    by (simp only: match_here.simps list_ex_iff set_upt)
  then obtain m where m: "m \<le> run_length False Digit s"
    and h: "match_here False p (b \<and> m = 0) (drop m s)"
    by (auto simp: less_Suc_eq_le)
  from m have c: "count_list (drop m s) CHR ''.'' = count_list s CHR ''.''"
    by (rule run_length_no_dot)
  show ?thesis
  proof (intro exI conjI)
    show "match_here False p (b \<and> m = 0) (drop m s)" by (rule h)
    show "count_list (drop m s) CHR ''.'' = count_list s CHR ''.''" by (rule c)
  qed
qed

lemma norm_char_False: "norm_char False = (\<lambda>c. c)"
  by (rule ext) (simp add: norm_char_def)

lemma match_str_dot:
  assumes "match_here False (Str ''.'' # p) b s"
  shows "\<exists>t. match_here False p False t \<and> count_list s CHR ''.'' = Suc (count_list t CHR ''.'')"
proof -
  from assms have st: "startswith s ''.''" and h: "match_here False p False (drop 1 s)"
    by (auto simp: norm_char_False)
  from st obtain t where t: "s = CHR ''.'' # t" by (auto simp: startswith_iff)
  with h have a: "match_here False p False t" by simp
  from t have c: "count_list s CHR ''.'' = Suc (count_list t CHR ''.'')" by simp
  show ?thesis
  proof (intro exI conjI)
    show "match_here False p False t" by (rule a)
    show "count_list s CHR ''.'' = Suc (count_list t CHR ''.'')" by (rule c)
  qed
qed

lemma match_digits_dot:
  assumes "match_here False (Rep n Digit # Str ''.'' # p) b s"
  shows "\<exists>t. match_here False p False t \<and> count_list s CHR ''.'' = Suc (count_list t CHR ''.'')"
proof -
  from match_rep_digit [OF assms] obtain t b'
    where t: "match_here False (Str ''.'' # p) b' t"
      and c: "count_list t CHR ''.'' = count_list s CHR ''.''" by auto
  from match_str_dot [OF t] obtain t'
    where a: "match_here False p False t'"
      and d: "count_list t CHR ''.'' = Suc (count_list t' CHR ''.'')" by auto
  show ?thesis
  proof (intro exI conjI)
    show "match_here False p False t'" by (rule a)
    show "count_list s CHR ''.'' = Suc (count_list t' CHR ''.'')" using c d by simp
  qed
qed

lemma match_digits_eol:
  assumes "match_here False [Rep n Digit, Eol] b s"
  shows "count_list s CHR ''.'' = 0"
proof -
  from match_rep_digit [OF assms] obtain t b'
    where t: "match_here False [Eol] b' t"
      and c: "count_list t CHR ''.'' = count_list s CHR ''.''" by auto
  from t have "t = [] \<or> t = [CHR 0x0A]" by simp
  then have "count_list t CHR ''.'' = 0" by auto
  with c show ?thesis by simp
qed

lemma ip_pattern_three_dots:
  assumes "re_match False ip_pattern s"
  shows "count_list s CHR ''.'' = 3"
proof -
  from assms have m: "match_here False
      (Rep 1 Digit # Str ''.'' # Rep 1 Digit # Str ''.'' # Rep 1 Digit # Str ''.'' #
       [Rep 1 Digit, Eol]) True s"
    by (simp add: re_match_def ip_pattern_def)
  from match_digits_dot [OF m] obtain t1
    where t1: "match_here False
      (Rep 1 Digit # Str ''.'' # Rep 1 Digit # Str ''.'' # [Rep 1 Digit, Eol]) False t1"
      and c1: "count_list s CHR ''.'' = Suc (count_list t1 CHR ''.'')" by auto
  from match_digits_dot [OF t1] obtain t2
    where t2: "match_here False (Rep 1 Digit # Str ''.'' # [Rep 1 Digit, Eol]) False t2"
      and c2: "count_list t1 CHR ''.'' = Suc (count_list t2 CHR ''.'')" by auto
  from match_digits_dot [OF t2] obtain t3
    where t3: "match_here False [Rep 1 Digit, Eol] False t3"
      and c3: "count_list t2 CHR ''.'' = Suc (count_list t3 CHR ''.'')" by auto
  from match_digits_eol [OF t3] c1 c2 c3 show ?thesis by simp
qed

lemma analyze_urls_no_urls: "find_urls text = [] \<Longrightarrow> analyze_urls self chk text = Inr []"
  by (simp add: analyze_urls_def)

text \<open>
  When the IP address check fires, the netloc holds three dots, so the subdomain check
  fires with it and the score of the finding is at least 0.8.
\<close>

lemma ip_url_scores_at_least:
  assumes "analyze_urls self chk text = Inr fs" and "f \<in> set fs"
    and "re_match False ip_pattern (split_netloc (url f))"
  shows "count_list (split_netloc (url f)) CHR ''.'' = 3
   \<and> ''IP address used instead of domain name'' \<in> set (reasons f)
   \<and> ''Multiple subdomains detected'' \<in> set (reasons f)
   \<and> 0.8 \<le> risk_score f"
proof -
  have d: "count_list (split_netloc (url f)) CHR ''.'' = 3"
    using assms(3) by (rule ip_pattern_three_dots)
  have r: "reasons f = rule_reasons self (url f) (split_netloc (url f))"
    using finding_score(2) [OF assms(1,2)] .
  have s: "risk_score f = rule_score self (url f) (split_netloc (url f))"
    using finding_score(1) [OF assms(1,2)] .
  have i: "''IP address used instead of domain name'' \<in> set (reasons f)"
    unfolding r rule_reasons_def using assms(3) by simp
  have m: "''Multiple subdomains detected'' \<in> set (reasons f)"
    unfolding r rule_reasons_def using d by simp
  have "0.8 \<le> rule_score self (url f) (split_netloc (url f))"
    unfolding rule_score_def using assms(3) d by simp
  then have g: "0.8 \<le> risk_score f" using s by simp
  from d i m g show ?thesis by simp
qed

subsection \<open>The aggregation\<close>

lemma header_part_eq:
  "header_part self headers =
     (case headers of
        None \<Rightarrow> None
      | Some hs \<Rightarrow>
          if hs = [] then None
          else Some \<lparr>hd_score = fst (analyze_headers self hs),
                     hd_reasons = snd (analyze_headers self hs)\<rparr>)"
  by (simp add: header_part_def truthy_def split_beta split: option.splits)

lemma header_part_nonneg:
  "0 \<le> (case header_part self headers of None \<Rightarrow> 0 | Some h \<Rightarrow> hd_score h)"
  by (simp add: header_part_eq analyze_headers_nonneg split: option.splits)

lemma analyze_message_Inl:
  "analyze_urls self chk text = Inl e \<Longrightarrow> analyze_message self chk text headers = Inl e"
  by (simp add: analyze_message_def)

lemma analyze_message_Inr:
  assumes "analyze_urls self chk text = Inr us"
  shows "analyze_message self chk text headers =
     Inr \<lparr>overall_risk_score =
             min (sum_list (map risk_score us) + fst (analyze_keywords self text)
                  + (case header_part self headers of None \<Rightarrow> 0 | Some h \<Rightarrow> hd_score h)) 1,
           risk_level =
             (if 0.7 \<le> min (sum_list (map risk_score us) + fst (analyze_keywords self text)
                  + (case header_part self headers of None \<Rightarrow> 0 | Some h \<Rightarrow> hd_score h)) 1
              then ''High''
              else if 0.4 \<le> min (sum_list (map risk_score us) + fst (analyze_keywords self text)
                  + (case header_part self headers of None \<Rightarrow> 0 | Some h \<Rightarrow> hd_score h)) 1
              then ''Medium'' else ''Low''),
           url_analysis = us,
           keyword_analysis = \<lparr>kw_score = fst (analyze_keywords self text),
                                detected_keywords = snd (analyze_keywords self text)\<rparr>,
           header_analysis = header_part self headers,
           recommendations =
             [if 0.7 \<le> min (sum_list (map risk_score us) + fst (analyze_keywords self text)
                  + (case header_part self headers of None \<Rightarrow> 0 | Some h \<Rightarrow> hd_score h)) 1
              then ''Block this message immediately''
              else if 0.4 \<le> min (sum_list (map risk_score us) + fst (analyze_keywords self text)
                  + (case header_part self headers of None \<Rightarrow> 0 | Some h \<Rightarrow> hd_score h)) 1
              then ''Review message carefully before taking any action''
              else ''Message appears to be legitimate but always exercise caution'']\<rparr>"
proof (cases "header_part self headers")
  case None
  then show ?thesis using assms
    by (auto simp: analyze_message_def Let_def split_beta min_def)
next
  case (Some h)
  then show ?thesis using assms
    by (auto simp: analyze_message_def Let_def split_beta min_def)
qed

lemma header_part_score:
  "(case header_part self headers of None \<Rightarrow> 0 | Some h \<Rightarrow> hd_score h)
     = header_score self headers"
  by (simp add: header_part_eq header_score_def split: option.splits)

lemma analyze_message_returns:
  assumes "analyze_message self chk text headers = Inr r"
  obtains us where "analyze_urls self chk text = Inr us"
proof (cases "analyze_urls self chk text")
  case (Inl e)
  then have "analyze_message self chk text headers = Inl e" by (rule analyze_message_Inl)
  with assms show ?thesis by simp
next
  case (Inr us)
  then show ?thesis by (rule that)
qed

lemma keyword_score_nonneg: "0 \<le> fst (analyze_keywords PhishingDetector text)"
proof -
  have "\<forall>kw \<in> set (filter (\<lambda>kw. str_in (fst kw) (str_lower text)) keyword_table).
          0 \<le> snd kw"
    using keyword_table_nonneg by simp
  then have "0 \<le> sum_list (map snd (filter (\<lambda>kw. str_in (fst kw) (str_lower text))
                 keyword_table))"
    by (intro sum_list_nonneg) auto
  then show ?thesis
    by (simp add: analyze_keywords_def keywords_loop_eq PhishingDetector_def)
qed

text \<open>
  Claim C1. In every report of \<open>analyze_message\<close> the overall risk score is the
  smaller of 1.0 and the sum of the URL score (the sum of the risk scores of all
  findings of \<open>analyze_urls\<close>), the keyword score and the header score (that of
  \<open>analyze_headers\<close> when headers are given, 0 otherwise). The components are
  reported as the analyzers returned them, without clamping.
\<close>

theorem overall_score_is_clamped_sum:
  assumes "analyze_message self chk text headers = Inr r"
  shows "analyze_urls self chk text = Inr (url_analysis r)
   \<and> kw_score (keyword_analysis r) = fst (analyze_keywords self text)
   \<and> (case header_analysis r of None \<Rightarrow> 0 | Some h \<Rightarrow> hd_score h)
       = header_score self headers
   \<and> overall_risk_score r
       = min (sum_list (map risk_score (url_analysis r))
              + fst (analyze_keywords self text)
              + header_score self headers) 1.0"
proof -
  from assms obtain us where us: "analyze_urls self chk text = Inr us"
    by (rule analyze_message_returns)
  note m = analyze_message_Inr [OF us, of headers]
  from assms m have u: "url_analysis r = us" by auto
  from assms m have k: "kw_score (keyword_analysis r) = fst (analyze_keywords self text)"
    by auto
  from assms m have h: "header_analysis r = header_part self headers" by auto
  from assms m have o: "overall_risk_score r
       = min (sum_list (map risk_score us) + fst (analyze_keywords self text)
              + (case header_part self headers of None \<Rightarrow> 0 | Some h \<Rightarrow> hd_score h)) 1"
    by auto
  have a: "analyze_urls self chk text = Inr (url_analysis r)" using us u by simp
  have b: "(case header_analysis r of None \<Rightarrow> 0 | Some h \<Rightarrow> hd_score h)
       = header_score self headers"
    unfolding h by (rule header_part_score)
  have c: "overall_risk_score r
       = min (sum_list (map risk_score (url_analysis r))
              + fst (analyze_keywords self text)
              + header_score self headers) 1.0"
    unfolding o u header_part_score by simp
  from a k b c show ?thesis by simp
qed

text \<open>
  Claim C2. For every message text and every optional header mapping, the overall
  risk score of the report that \<open>analyze_message\<close> returns lies between 0 and 1.
\<close>

theorem overall_score_in_unit_interval:
  assumes "analyze_message PhishingDetector chk text headers = Inr r"
  shows "0 \<le> overall_risk_score r \<and> overall_risk_score r \<le> 1"
proof -
  from assms obtain us where us: "analyze_urls PhishingDetector chk text = Inr us"
    by (rule analyze_message_returns)
  note m = analyze_message_Inr [OF us, of headers]
  from assms m have o: "overall_risk_score r
       = min (sum_list (map risk_score us) + fst (analyze_keywords PhishingDetector text)
              + (case header_part PhishingDetector headers of None \<Rightarrow> 0
                 | Some h \<Rightarrow> hd_score h)) 1"
    by auto
  have "0 \<le> sum_list (map risk_score us)" using us by (rule url_scores_nonneg)
  moreover have "0 \<le> fst (analyze_keywords PhishingDetector text)"
    by (rule keyword_score_nonneg)
  moreover have "0 \<le> (case header_part PhishingDetector headers of None \<Rightarrow> 0
                 | Some h \<Rightarrow> hd_score h)"
    by (rule header_part_nonneg)
  ultimately show ?thesis unfolding o by simp
qed

text \<open>
  Claim C3. The clamped overall score is classified in this order: a score of at least
  0.7 is High with the recommendation to block the message; otherwise a score of at
  least 0.4 is Medium with the recommendation to review it; a score below 0.4 is Low.
  A score of exactly 0.7 is High and a score of exactly 0.4 is Medium.
\<close>

theorem risk_level_thresholds:
  assumes "analyze_message self chk text headers = Inr r"
  shows "(0.7 \<le> overall_risk_score r \<longrightarrow>
            risk_level r = ''High''
            \<and> recommendations r = [''Block this message immediately''])
   \<and> (0.4 \<le> overall_risk_score r \<and> overall_risk_score r < 0.7 \<longrightarrow>
            risk_level r = ''Medium''
            \<and> recommendations r = [''Review message carefully before taking any action''])
   \<and> (overall_risk_score r < 0.4 \<longrightarrow>
            risk_level r = ''Low''
            \<and> recommendations r
                = [''Message appears to be legitimate but always exercise caution''])"
proof -
  from assms obtain us where us: "analyze_urls self chk text = Inr us"
    by (rule analyze_message_returns)
  define t where "t = min (sum_list (map risk_score us) + fst (analyze_keywords self text)
              + (case header_part self headers of None \<Rightarrow> 0 | Some h \<Rightarrow> hd_score h)) 1"
  note m = analyze_message_Inr [OF us, of headers, folded t_def]
  from assms m have o: "overall_risk_score r = t" by auto
  from assms m have l: "risk_level r
       = (if 0.7 \<le> t then ''High'' else if 0.4 \<le> t then ''Medium'' else ''Low'')"
    by auto
  from assms m have c: "recommendations r
       = [if 0.7 \<le> t then ''Block this message immediately''
          else if 0.4 \<le> t then ''Review message carefully before taking any action''
          else ''Message appears to be legitimate but always exercise caution'']"
    by auto
  show ?thesis unfolding o l c by simp
qed

theorem overall_score_is_clamped_sum_witness:
  "analyze_message PhishingDetector no_host_check ''see http://1.2.3.4/x%20'' None
     = Inr \<lparr>overall_risk_score = 1, risk_level = ''High'',
            url_analysis =
              [\<lparr>url = ''http://1.2.3.4/x%20'', risk_score = 1.1,
                reasons = [''IP address used instead of domain name'',
                           ''Multiple subdomains detected'',
                           ''URL contains encoded characters'']\<rparr>],
            keyword_analysis = \<lparr>kw_score = 0, detected_keywords = []\<rparr>,
            header_analysis = None,
            recommendations = [''Block this message immediately'']\<rparr>
   \<and> analyze_urls PhishingDetector no_host_check ''see http://1.2.3.4/x%20''
     = Inr [\<lparr>url = ''http://1.2.3.4/x%20'', risk_score = 1.1,
             reasons = [''IP address used instead of domain name'',
                        ''Multiple subdomains detected'',
                        ''URL contains encoded characters'']\<rparr>]
   \<and> fst (analyze_keywords PhishingDetector ''see http://1.2.3.4/x%20'') = 0
   \<and> header_score PhishingDetector None = 0"
proof -
  have e: "analyze_message PhishingDetector no_host_check ''see http://1.2.3.4/x%20'' None
     = Inr \<lparr>overall_risk_score = 1, risk_level = ''High'',
            url_analysis =
              [\<lparr>url = ''http://1.2.3.4/x%20'', risk_score = 1.1,
                reasons = [''IP address used instead of domain name'',
                           ''Multiple subdomains detected'',
                           ''URL contains encoded characters'']\<rparr>],
            keyword_analysis = \<lparr>kw_score = 0, detected_keywords = []\<rparr>,
            header_analysis = None,
            recommendations = [''Block this message immediately'']\<rparr>"
    by code_simp
  note t = overall_score_is_clamped_sum [OF e]
  from t have a: "analyze_urls PhishingDetector no_host_check ''see http://1.2.3.4/x%20''
     = Inr [\<lparr>url = ''http://1.2.3.4/x%20'', risk_score = 1.1,
             reasons = [''IP address used instead of domain name'',
                        ''Multiple subdomains detected'',
                        ''URL contains encoded characters'']\<rparr>]"
    by simp
  from t have b: "fst (analyze_keywords PhishingDetector ''see http://1.2.3.4/x%20'') = 0"
    by simp
  from t have c: "header_score PhishingDetector None = 0"
    by simp
  from e a b c show ?thesis by simp
qed

theorem overall_score_in_unit_interval_witness:
  "analyze_message PhishingDetector no_host_check
      ''Click here to verify your account: http://pay.tk/login''
      (Some [(''from'', ''fiverr-support@x.tk''), (''reply-to'', ''ops@y.com'')])
     = Inr \<lparr>overall_risk_score = 1, risk_level = ''High'',
            url_analysis =
              [\<lparr>url = ''http://pay.tk/login'', risk_score = 0.4,
                reasons = [''Suspicious TLD: .tk'']\<rparr>],
            keyword_analysis =
              \<lparr>kw_score = 0.6, detected_keywords = [''verify your account'', ''click here'']\<rparr>,
            header_analysis =
              Some \<lparr>hd_score = 1.3,
                    hd_reasons =
                      [''Reply-To domain mismatch'',
                       ''Suspicious sender pattern: fiverr[._-]?support'' @ bslash @ ''d*@'',
                       ''Missing important header: received'',
                       ''Missing important header: authentication-results'',
                       ''Missing important header: dkim-signature'']\<rparr>,
            recommendations = [''Block this message immediately'']\<rparr>
   \<and> (case analyze_message PhishingDetector no_host_check
              ''Click here to verify your account: http://pay.tk/login''
              (Some [(''from'', ''fiverr-support@x.tk''), (''reply-to'', ''ops@y.com'')]) of
         Inl e \<Rightarrow> False
       | Inr r \<Rightarrow> 0 \<le> overall_risk_score r \<and> overall_risk_score r \<le> 1)"
proof -
  have e: "analyze_message PhishingDetector no_host_check
      ''Click here to verify your account: http://pay.tk/login''
      (Some [(''from'', ''fiverr-support@x.tk''), (''reply-to'', ''ops@y.com'')])
     = Inr \<lparr>overall_risk_score = 1, risk_level = ''High'',
            url_analysis =
              [\<lparr>url = ''http://pay.tk/login'', risk_score = 0.4,
                reasons = [''Suspicious TLD: .tk'']\<rparr>],
            keyword_analysis =
              \<lparr>kw_score = 0.6, detected_keywords = [''verify your account'', ''click here'']\<rparr>,
            header_analysis =
              Some \<lparr>hd_score = 1.3,
                    hd_reasons =
                      [''Reply-To domain mismatch'',
                       ''Suspicious sender pattern: fiverr[._-]?support'' @ bslash @ ''d*@'',
                       ''Missing important header: received'',
                       ''Missing important header: authentication-results'',
                       ''Missing important header: dkim-signature'']\<rparr>,
            recommendations = [''Block this message immediately'']\<rparr>"
    by code_simp
  note t = overall_score_in_unit_interval [OF e]
  from t e show ?thesis by simp
qed

theorem risk_level_thresholds_witness:
  "analyze_message PhishingDetector no_host_check ''paypal only'' None
     = Inr \<lparr>overall_risk_score = 0.7, risk_level = ''High'', url_analysis = [],
            keyword_analysis = \<lparr>kw_score = 0.7, detected_keywords = [''paypal only'']\<rparr>,
            header_analysis = None,
            recommendations = [''Block this message immediately'']\<rparr>
   \<and> analyze_message PhishingDetector no_host_check ''account suspended'' None
     = Inr \<lparr>overall_risk_score = 0.4, risk_level = ''Medium'', url_analysis = [],
            keyword_analysis = \<lparr>kw_score = 0.4, detected_keywords = [''account suspended'']\<rparr>,
            header_analysis = None,
            recommendations = [''Review message carefully before taking any action'']\<rparr>
   \<and> analyze_message PhishingDetector no_host_check ''urgent'' None
     = Inr \<lparr>overall_risk_score = 0.3, risk_level = ''Low'', url_analysis = [],
            keyword_analysis = \<lparr>kw_score = 0.3, detected_keywords = [''urgent'']\<rparr>,
            header_analysis = None,
            recommendations =
              [''Message appears to be legitimate but always exercise caution'']\<rparr>"
proof -
  have h: "analyze_message PhishingDetector no_host_check ''paypal only'' None
     = Inr \<lparr>overall_risk_score = 0.7, risk_level = ''High'', url_analysis = [],
            keyword_analysis = \<lparr>kw_score = 0.7, detected_keywords = [''paypal only'']\<rparr>,
            header_analysis = None,
            recommendations = [''Block this message immediately'']\<rparr>"
    by code_simp
  have m: "analyze_message PhishingDetector no_host_check ''account suspended'' None
     = Inr \<lparr>overall_risk_score = 0.4, risk_level = ''Medium'', url_analysis = [],
            keyword_analysis = \<lparr>kw_score = 0.4, detected_keywords = [''account suspended'']\<rparr>,
            header_analysis = None,
            recommendations = [''Review message carefully before taking any action'']\<rparr>"
    by code_simp
  have l: "analyze_message PhishingDetector no_host_check ''urgent'' None
     = Inr \<lparr>overall_risk_score = 0.3, risk_level = ''Low'', url_analysis = [],
            keyword_analysis = \<lparr>kw_score = 0.3, detected_keywords = [''urgent'']\<rparr>,
            header_analysis = None,
            recommendations =
              [''Message appears to be legitimate but always exercise caution'']\<rparr>"
    by code_simp
  note th = risk_level_thresholds [OF h] risk_level_thresholds [OF m] risk_level_thresholds [OF l]
  from h m l th show ?thesis by simp
qed

subsection \<open>When the analysis raises\<close>

text \<open>
  The only failure of the model is the \<open>ValueError\<close> of \<open>urlparse\<close>: a call raises
  exactly when the netloc of one of the extracted URLs is refused, and returns its
  result otherwise.
\<close>

lemma analyze_url_Inl_iff:
  "analyze_url self chk u = Inl e \<longleftrightarrow> urlparse_netloc chk u = Inl e"
  by (cases "urlparse_netloc chk u") (simp_all add: analyze_url_eq)

lemma urls_loop_raises_iff:
  "urls_loop self chk us acc = Inl ValueError
     \<longleftrightarrow> list_ex (\<lambda>u. urlparse_netloc chk u = Inl ValueError) us"
proof (induction us arbitrary: acc)
  case Nil
  show ?case by simp
next
  case (Cons u us)
  show ?case
  proof (cases "analyze_url self chk u")
    case (Inl e)
    have e: "e = ValueError" by (cases e) simp
    from Inl e have a: "analyze_url self chk u = Inl ValueError" by simp
    then have "urlparse_netloc chk u = Inl ValueError"
      by (simp add: analyze_url_Inl_iff)
    with a show ?thesis by simp
  next
    case (Inr f)
    then have "urlparse_netloc chk u \<noteq> Inl ValueError"
      using analyze_url_Inl_iff [of self chk u ValueError] by simp
    with Inr Cons.IH [of "acc @ [f]"] show ?thesis by simp
  qed
qed

lemma analyze_urls_raises_iff:
  "analyze_urls self chk text = Inl ValueError
     \<longleftrightarrow> list_ex (\<lambda>u. urlparse_netloc chk u = Inl ValueError) (find_urls text)"
  by (simp add: analyze_urls_def urls_loop_raises_iff)

lemma analyze_message_raises_iff:
  "analyze_message self chk text headers = Inl ValueError
     \<longleftrightarrow> list_ex (\<lambda>u. urlparse_netloc chk u = Inl ValueError) (find_urls text)"
proof (cases "analyze_urls self chk text")
  case (Inl e)
  have e: "e = ValueError" by (cases e) simp
  from Inl e have "analyze_message self chk text headers = Inl ValueError"
    by (simp add: analyze_message_Inl)
  moreover from Inl e have "list_ex (\<lambda>u. urlparse_netloc chk u = Inl ValueError) (find_urls text)"
    by (simp add: analyze_urls_raises_iff)
  ultimately show ?thesis by simp
next
  case (Inr us)
  then have "analyze_message self chk text headers \<noteq> Inl ValueError"
    using analyze_message_Inr [OF Inr, of headers] by simp
  moreover from Inr have "\<not> list_ex (\<lambda>u. urlparse_netloc chk u = Inl ValueError) (find_urls text)"
    using analyze_urls_raises_iff [of self chk "text"] by simp
  ultimately show ?thesis by simp
qed

subsection \<open>The URL rules on the domain portion\<close>

lemma endswith_suffix: "endswith s p \<longleftrightarrow> suffix p s"
proof
  assume "endswith s p"
  then obtain b where "rev s = rev p @ b" by (auto simp: endswith_def startswith_iff)
  then have "rev (rev s) = rev (rev p @ b)" by simp
  then have "s = rev b @ p" by simp
  then show "suffix p s" by (auto simp: suffix_def)
next
  assume "suffix p s"
  then obtain a where "s = a @ p" by (auto simp: suffix_def)
  then have "rev s = rev p @ rev a" by simp
  then show "endswith s p" unfolding endswith_def startswith_iff by blast
qed

lemma foldl_plus_sum_list: "foldl (+) a xs = a + sum_list (xs :: real list)"
  by (induction xs arbitrary: a) (auto simp: algebra_simps)

lemma sum_list_const: "sum_list (map (\<lambda>x. c) xs) = (c :: real) * real (length xs)"
  by (induction xs) (auto simp: algebra_simps)

text \<open>The IP address pattern matches exactly the dotted quads.\<close>

lemma run_length_take:
  "m \<le> run_length False Digit s \<Longrightarrow> list_all is_digit (take m s) \<and> m \<le> length s"
proof (induction s arbitrary: m)
  case Nil
  then show ?case by simp
next
  case (Cons c cs)
  show ?case
  proof (cases m)
    case 0
    then show ?thesis by simp
  next
    case (Suc k)
    with Cons.prems have d: "is_digit c" and k: "k \<le> run_length False Digit cs"
      by (auto split: if_splits)
    from Cons.IH [OF k] d Suc show ?thesis by simp
  qed
qed

lemma run_length_digits_then:
  "list_all is_digit d \<Longrightarrow> \<not> is_digit c \<Longrightarrow> run_length False Digit (d @ c # t) = length d"
  by (induction d) auto

lemma run_length_digits_end:
  "list_all is_digit d \<Longrightarrow> run_length False Digit d = length d"
  by (induction d) auto

lemma dot_not_digit: "\<not> is_digit CHR ''.''"
  by (simp add: is_digit_def)

lemma newline_not_digit: "\<not> is_digit (CHR 0x0A)"
  by (simp add: is_digit_def)

lemma rep_iff:
  "match_here False (Rep n Digit # p) b s
     \<longleftrightarrow> (\<exists>m. n \<le> m \<and> m \<le> run_length False Digit s
              \<and> match_here False p (b \<and> m = 0) (drop m s))"
proof -
  have "match_here False (Rep n Digit # p) b s
     \<longleftrightarrow> (\<exists>m \<in> {n ..< Suc (run_length False Digit s)}.
           match_here False p (b \<and> m = 0) (drop m s))"
    by (simp only: match_here.simps list_ex_iff set_upt)
  then show ?thesis by (auto simp: less_Suc_eq_le)
qed

lemma digits_dot_iff:
  "match_here False (Rep 1 Digit # Str ''.'' # p) b s
     \<longleftrightarrow> (\<exists>d t. s = d @ CHR ''.'' # t \<and> d \<noteq> [] \<and> list_all is_digit d
               \<and> match_here False p False t)"
proof
  assume "match_here False (Rep 1 Digit # Str ''.'' # p) b s"
  then obtain m where m1: "1 \<le> m" and m2: "m \<le> run_length False Digit s"
    and h: "match_here False (Str ''.'' # p) (b \<and> m = 0) (drop m s)"
    unfolding rep_iff by auto
  from h have st: "startswith (drop m s) ''.''" and h2: "match_here False p False (drop 1 (drop m s))"
    by (auto simp: norm_char_False)
  from st obtain t where t: "drop m s = CHR ''.'' # t" by (auto simp: startswith_iff)
  from run_length_take [OF m2] have dg: "list_all is_digit (take m s)" and ml: "m \<le> length s"
    by auto
  have s: "s = take m s @ CHR ''.'' # t" using t by (metis append_take_drop_id)
  have ne: "take m s \<noteq> []" using m1 ml t by auto
  have mt: "match_here False p False t" using h2 t by simp
  show "\<exists>d t. s = d @ CHR ''.'' # t \<and> d \<noteq> [] \<and> list_all is_digit d
               \<and> match_here False p False t"
  proof (intro exI conjI)
    show "s = take m s @ CHR ''.'' # t" by (rule s)
    show "take m s \<noteq> []" by (rule ne)
    show "list_all is_digit (take m s)" by (rule dg)
    show "match_here False p False t" by (rule mt)
  qed
next
  assume "\<exists>d t. s = d @ CHR ''.'' # t \<and> d \<noteq> [] \<and> list_all is_digit d
               \<and> match_here False p False t"
  then obtain d t where s: "s = d @ CHR ''.'' # t" and ne: "d \<noteq> []"
    and dg: "list_all is_digit d" and mt: "match_here False p False t" by auto
  have rl: "run_length False Digit s = length d"
    unfolding s using dg dot_not_digit by (rule run_length_digits_then)
  have "1 \<le> length d" using ne by (cases d) auto
  moreover have "length d \<le> run_length False Digit s" using rl by simp
  moreover have "match_here False (Str ''.'' # p) (b \<and> length d = 0) (drop (length d) s)"
    unfolding s using mt by (simp add: norm_char_False)
  ultimately show "match_here False (Rep 1 Digit # Str ''.'' # p) b s"
    unfolding rep_iff by blast
qed

lemma digits_eol_iff:
  "match_here False [Rep 1 Digit, Eol] b s
     \<longleftrightarrow> (\<exists>d. d \<noteq> [] \<and> list_all is_digit d \<and> (s = d \<or> s = d @ [CHR 0x0A]))"
proof
  assume "match_here False [Rep 1 Digit, Eol] b s"
  then obtain m where m1: "1 \<le> m" and m2: "m \<le> run_length False Digit s"
    and h: "drop m s = [] \<or> drop m s = [CHR 0x0A]"
    unfolding rep_iff by auto
  from run_length_take [OF m2] have dg: "list_all is_digit (take m s)" and ml: "m \<le> length s"
    by auto
  have ne: "take m s \<noteq> []" using m1 ml by (cases s) auto
  have sd: "s = take m s \<or> s = take m s @ [CHR 0x0A]"
    using h by (metis append_take_drop_id append_Nil2)
  show "\<exists>d. d \<noteq> [] \<and> list_all is_digit d \<and> (s = d \<or> s = d @ [CHR 0x0A])"
  proof (intro exI conjI)
    show "take m s \<noteq> []" by (rule ne)
    show "list_all is_digit (take m s)" by (rule dg)
    show "s = take m s \<or> s = take m s @ [CHR 0x0A]" by (rule sd)
  qed
next
  assume "\<exists>d. d \<noteq> [] \<and> list_all is_digit d \<and> (s = d \<or> s = d @ [CHR 0x0A])"
  then obtain d where ne: "d \<noteq> []" and dg: "list_all is_digit d"
    and s: "s = d \<or> s = d @ [CHR 0x0A]" by auto
  have l1: "1 \<le> length d" using ne by (cases d) auto
  from s show "match_here False [Rep 1 Digit, Eol] b s"
  proof
    assume e: "s = d"
    have "length d \<le> run_length False Digit s"
      unfolding e using run_length_digits_end [OF dg] by simp
    moreover have "match_here False [Eol] (b \<and> length d = 0) (drop (length d) s)"
      unfolding e by simp
    ultimately show ?thesis unfolding rep_iff using l1 by blast
  next
    assume e: "s = d @ [CHR 0x0A]"
    have "length d \<le> run_length False Digit s"
      unfolding e using run_length_digits_then [OF dg newline_not_digit, of "[]"] by simp
    moreover have "match_here False [Eol] (b \<and> length d = 0) (drop (length d) s)"
      unfolding e by simp
    ultimately show ?thesis unfolding rep_iff using l1 by blast
  qed
qed

lemma py_split_digits_dot:
  "sep \<notin> set a \<Longrightarrow> py_split sep (a @ sep # b) = a # py_split sep b"
  by (induction a) auto

lemma py_split_Cons_decomp:
  assumes "py_split sep s = p # q # rest"
  shows "\<exists>t. s = p @ sep # t \<and> py_split sep t = q # rest \<and> sep \<notin> set p"
  using assms
proof (induction s arbitrary: p)
  case Nil
  then show ?case by simp
next
  case (Cons c cs)
  show ?case
  proof (cases "c = sep")
    case True
    with Cons.prems have p: "p = []" and r: "py_split sep cs = q # rest" by auto
    show ?thesis
    proof (intro exI conjI)
      show "c # cs = p @ sep # cs" using p True by simp
      show "py_split sep cs = q # rest" by (rule r)
      show "sep \<notin> set p" using p by simp
    qed
  next
    case False
    obtain w ws where ws: "py_split sep cs = w # ws"
      using py_split_nonempty [of sep cs] by (cases "py_split sep cs") auto
    with Cons.prems False have p: "p = c # w" and r: "ws = q # rest" by auto
    from ws r have "py_split sep cs = w # q # rest" by simp
    from Cons.IH [OF this] obtain t where t1: "cs = w @ sep # t"
      and t2: "py_split sep t = q # rest" and t3: "sep \<notin> set w" by auto
    show ?thesis
    proof (intro exI conjI)
      show "c # cs = p @ sep # t" using p t1 by simp
      show "py_split sep t = q # rest" by (rule t2)
      show "sep \<notin> set p" using p t3 False by auto
    qed
  qed
qed

lemma py_split_single:
  assumes "py_split sep s = [p]"
  shows "s = p \<and> sep \<notin> set p"
proof -
  have "count_list s sep = 0" using length_py_split [of sep s] assms by simp
  then have n: "sep \<notin> set s" by (simp add: count_list_0_iff)
  then have "py_split sep s = [s]" by (rule py_split_no_sep)
  with assms n show ?thesis by simp
qed

lemma digits_no_dot: "list_all is_digit d \<Longrightarrow> CHR ''.'' \<notin> set d"
  using dot_not_digit by (auto simp: list_all_iff)

lemma dotted_quad_iff:
  "dotted_quad s \<longleftrightarrow>
     (\<exists>a b c d. s = a @ CHR ''.'' # b @ CHR ''.'' # c @ CHR ''.'' # d
        \<and> a \<noteq> [] \<and> list_all is_digit a \<and> b \<noteq> [] \<and> list_all is_digit b
        \<and> c \<noteq> [] \<and> list_all is_digit c \<and> d \<noteq> [] \<and> list_all is_digit d)"
proof
  assume "dotted_quad s"
  then obtain a b c d where ps: "py_split CHR ''.'' s = [a, b, c, d]"
    and da: "a \<noteq> []" "list_all is_digit a" and db: "b \<noteq> []" "list_all is_digit b"
    and dc: "c \<noteq> []" "list_all is_digit c" and dd: "d \<noteq> []" "list_all is_digit d"
    by (auto simp: dotted_quad_def Let_def length_Suc_conv numeral_eq_Suc)
  from py_split_Cons_decomp [OF ps] obtain t1 where t1: "s = a @ CHR ''.'' # t1"
    and p1: "py_split CHR ''.'' t1 = [b, c, d]" by auto
  from py_split_Cons_decomp [OF p1] obtain t2 where t2: "t1 = b @ CHR ''.'' # t2"
    and p2: "py_split CHR ''.'' t2 = [c, d]" by auto
  from py_split_Cons_decomp [OF p2] obtain t3 where t3: "t2 = c @ CHR ''.'' # t3"
    and p3: "py_split CHR ''.'' t3 = [d]" by auto
  from py_split_single [OF p3] have t4: "t3 = d" by simp
  have s: "s = a @ CHR ''.'' # b @ CHR ''.'' # c @ CHR ''.'' # d"
    using t1 t2 t3 t4 by simp
  show "\<exists>a b c d. s = a @ CHR ''.'' # b @ CHR ''.'' # c @ CHR ''.'' # d
        \<and> a \<noteq> [] \<and> list_all is_digit a \<and> b \<noteq> [] \<and> list_all is_digit b
        \<and> c \<noteq> [] \<and> list_all is_digit c \<and> d \<noteq> [] \<and> list_all is_digit d"
  proof (intro exI conjI)
    show "s = a @ CHR ''.'' # b @ CHR ''.'' # c @ CHR ''.'' # d" by (rule s)
  qed (rule da db dc dd)+
next
  assume "\<exists>a b c d. s = a @ CHR ''.'' # b @ CHR ''.'' # c @ CHR ''.'' # d
        \<and> a \<noteq> [] \<and> list_all is_digit a \<and> b \<noteq> [] \<and> list_all is_digit b
        \<and> c \<noteq> [] \<and> list_all is_digit c \<and> d \<noteq> [] \<and> list_all is_digit d"
  then obtain a b c d where s: "s = a @ CHR ''.'' # b @ CHR ''.'' # c @ CHR ''.'' # d"
    and da: "a \<noteq> []" "list_all is_digit a" and db: "b \<noteq> []" "list_all is_digit b"
    and dc: "c \<noteq> []" "list_all is_digit c" and dd: "d \<noteq> []" "list_all is_digit d"
    by auto
  have "py_split CHR ''.'' s = [a, b, c, d]"
    unfolding s
    by (simp add: py_split_digits_dot py_split_no_sep digits_no_dot da db dc dd)
  then show "dotted_quad s"
    using da db dc dd by (simp add: dotted_quad_def)
qed

lemma ip_pattern_nested:
  "re_match False ip_pattern s \<longleftrightarrow>
     (\<exists>a t1. s = a @ CHR ''.'' # t1 \<and> a \<noteq> [] \<and> list_all is_digit a \<and>
       (\<exists>b t2. t1 = b @ CHR ''.'' # t2 \<and> b \<noteq> [] \<and> list_all is_digit b \<and>
         (\<exists>c t3. t2 = c @ CHR ''.'' # t3 \<and> c \<noteq> [] \<and> list_all is_digit c \<and>
           (\<exists>d. d \<noteq> [] \<and> list_all is_digit d \<and> (t3 = d \<or> t3 = d @ [CHR 0x0A])))))"
  unfolding re_match_def ip_pattern_def match_here.simps(2) digits_dot_iff digits_eol_iff
  by simp

lemma ip_pattern_dotted_quad:
  assumes nl: "CHR 0x0A \<notin> set s"
  shows "re_match False ip_pattern s \<longleftrightarrow> dotted_quad s"
proof
  assume "re_match False ip_pattern s"
  then obtain a t1 b t2 c t3 d where s: "s = a @ CHR ''.'' # t1"
    and da: "a \<noteq> []" "list_all is_digit a"
    and t1: "t1 = b @ CHR ''.'' # t2" and db: "b \<noteq> []" "list_all is_digit b"
    and t2: "t2 = c @ CHR ''.'' # t3" and dc: "c \<noteq> []" "list_all is_digit c"
    and dd: "d \<noteq> []" "list_all is_digit d"
    and t3: "t3 = d \<or> t3 = d @ [CHR 0x0A]"
    unfolding ip_pattern_nested by auto
  have "t3 \<noteq> d @ [CHR 0x0A]" using nl s t1 t2 by auto
  with t3 have "t3 = d" by simp
  then have e: "s = a @ CHR ''.'' # b @ CHR ''.'' # c @ CHR ''.'' # d"
    using s t1 t2 by simp
  show "dotted_quad s"
    unfolding dotted_quad_iff
  proof (intro exI conjI)
    show "s = a @ CHR ''.'' # b @ CHR ''.'' # c @ CHR ''.'' # d" by (rule e)
  qed (rule da db dc dd)+
next
  assume "dotted_quad s"
  then obtain a b c d where e: "s = a @ CHR ''.'' # b @ CHR ''.'' # c @ CHR ''.'' # d"
    and da: "a \<noteq> []" "list_all is_digit a" and db: "b \<noteq> []" "list_all is_digit b"
    and dc: "c \<noteq> []" "list_all is_digit c" and dd: "d \<noteq> []" "list_all is_digit d"
    unfolding dotted_quad_iff by auto
  show "re_match False ip_pattern s"
    unfolding ip_pattern_nested
  proof (intro exI conjI)
    show "s = a @ CHR ''.'' # (b @ CHR ''.'' # c @ CHR ''.'' # d)" using e by simp
    show "b @ CHR ''.'' # c @ CHR ''.'' # d = b @ CHR ''.'' # (c @ CHR ''.'' # d)" by simp
    show "c @ CHR ''.'' # d = c @ CHR ''.'' # d" by simp
    show "d = d \<or> d = d @ [CHR 0x0A]" by simp
  qed (rule da db dc dd)+
qed

lemma newline_not_url_char: "\<not> is_url_char (CHR 0x0A)"
  by (simp add: is_url_char_def is_lower_def is_upper_def is_digit_def bslash_def)

lemma match_url_no_newline:
  assumes "match_url s = Some u"
  shows "CHR 0x0A \<notin> set u"
proof -
  from assms obtain sch where sch: "match_scheme s = Some sch"
    and u: "u = sch @ takeWhile is_url_char (drop (length sch) s)"
    by (auto simp: match_url_def Let_def split: option.splits if_splits)
  from sch have "sch = ''https://'' \<or> sch = ''http://''"
    by (auto simp: match_scheme_def split: if_splits)
  then have a: "CHR 0x0A \<notin> set sch" by auto
  have b: "CHR 0x0A \<notin> set (takeWhile is_url_char (drop (length sch) s))"
    using newline_not_url_char by (auto dest: set_takeWhileD)
  from a b show ?thesis unfolding u by simp
qed

lemma find_urls_elem:
  "u \<in> set (find_urls s) \<Longrightarrow> \<exists>t. match_url t = Some u"
proof (induction s rule: find_urls.induct)
  case 1
  then show ?case by simp
next
  case (2 c cs)
  show ?case
  proof (cases "match_url (c # cs)")
    case None
    with 2 show ?thesis by simp
  next
    case (Some v)
    with 2(3) have "u = v \<or> u \<in> set (find_urls (drop (length v) (c # cs)))" by simp
    then show ?thesis
    proof
      assume "u = v"
      with Some show ?thesis by blast
    next
      assume "u \<in> set (find_urls (drop (length v) (c # cs)))"
      then show ?thesis using 2(2) [OF Some] by simp
    qed
  qed
qed

lemma set_strip_scheme: "set (strip_scheme u) \<subseteq> set u"
  by (auto simp: strip_scheme_def Let_def split: list.splits if_splits dest: in_set_dropD)

lemma set_split_netloc: "set (split_netloc u) \<subseteq> set u"
proof -
  have "set (split_netloc u) \<subseteq> set (strip_scheme u)"
    by (auto simp: split_netloc_def Let_def dest: set_takeWhileD in_set_dropD)
  with set_strip_scheme show ?thesis by blast
qed

lemma finding_netloc_no_newline:
  assumes "analyze_urls self chk text = Inr fs" and "f \<in> set fs"
  shows "CHR 0x0A \<notin> set (split_netloc (url f))"
proof -
  from analyze_urls_Inr(1) [OF assms(1)] assms(2) have "url f \<in> set (find_urls text)"
    by (metis image_eqI set_map)
  then obtain t where "match_url t = Some (url f)" using find_urls_elem by blast
  then have "CHR 0x0A \<notin> set (url f)" by (rule match_url_no_newline)
  with set_split_netloc show ?thesis by blast
qed

lemma rule_score_domain:
  assumes "CHR 0x0A \<notin> set (split_netloc u)" and "host_of (split_netloc u) = split_netloc u"
  shows "rule_score self u (split_netloc u) = foldl (+) 0 (domain_increments self u)"
    and "rule_reasons self u (split_netloc u) = domain_reasons self u"
proof -
  have d: "domain_of u = split_netloc u" using assms(2) by (simp add: domain_of_def)
  have q: "re_match False ip_pattern (split_netloc u) = dotted_quad (split_netloc u)"
    using assms(1) by (rule ip_pattern_dotted_quad)
  have t: "matching_tlds self (split_netloc u)
        = filter (\<lambda>tld. suffix tld (str_lower (split_netloc u))) (suspicious_tlds self)"
    unfolding matching_tlds_def by (rule filter_cong) (simp_all add: endswith_suffix)
  show "rule_score self u (split_netloc u) = foldl (+) 0 (domain_increments self u)"
    unfolding rule_score_def domain_increments_def d Let_def q t foldl_plus_sum_list
    by (simp add: sum_list_const)
  show "rule_reasons self u (split_netloc u) = domain_reasons self u"
    unfolding rule_reasons_def domain_reasons_def d Let_def q t by simp
qed

text \<open>
  Claim C6, as the code has it. A text without a URL gives the empty list, and
  whenever \<open>analyze_urls\<close> returns, it returns one finding for each match of the
  URL pattern, in the order of the matches in the text, a repeated URL once for each
  occurrence. For a finding whose netloc is the domain itself (no user information
  and no port), the score is the sum, in this order, of 0.4 for every suffix of the
  TLD table that ends the lower-cased domain, 0.5 if the domain is a bare dotted
  quad, 0.3 if the domain holds more than two dots, and 0.3 if the URL holds a
  percent sign; the reasons list one entry for each rule that fired.
\<close>

theorem analyze_urls_findings:
  "(find_urls text = [] \<longrightarrow> analyze_urls self chk text = Inr [])
   \<and> (\<forall>fs. analyze_urls self chk text = Inr fs \<longrightarrow>
        map url fs = find_urls text
        \<and> occur_in_order (map url fs) text
        \<and> (\<forall>f \<in> set fs. domain_of (url f) = split_netloc (url f) \<longrightarrow>
             risk_score f = foldl (+) 0 (domain_increments self (url f))
             \<and> reasons f = domain_reasons self (url f)))"
proof (intro conjI allI impI ballI)
  assume "find_urls text = []"
  then show "analyze_urls self chk text = Inr []" by (rule analyze_urls_no_urls)
next
  fix fs assume a: "analyze_urls self chk text = Inr fs"
  show m: "map url fs = find_urls text" using analyze_urls_Inr(1) [OF a] .
  show "occur_in_order (map url fs) text" using find_urls_in_order [of "text"] m by simp
next
  fix fs f
  assume a: "analyze_urls self chk text = Inr fs" and f: "f \<in> set fs"
    and h: "domain_of (url f) = split_netloc (url f)"
  have n: "CHR 0x0A \<notin> set (split_netloc (url f))"
    using a f by (rule finding_netloc_no_newline)
  have h': "host_of (split_netloc (url f)) = split_netloc (url f)"
    using h by (simp add: domain_of_def)
  show "risk_score f = foldl (+) 0 (domain_increments self (url f))"
    using finding_score(1) [OF a f] rule_score_domain(1) [OF n h'] by simp
  show "reasons f = domain_reasons self (url f)"
    using finding_score(2) [OF a f] rule_score_domain(2) [OF n h'] by simp
qed

text \<open>
  Three inputs on which the sentence of the specification does not hold as it is
  written. The pattern extracts \<open>http://[\<close>, and \<open>urlparse\<close> raises on it, so no
  finding is returned for that URL. The domain \<open>www.example.com\<close> has three labels,
  more than two, yet only two dots, and the subdomain check does not fire. And in
  \<open>http://evil.tk:8080/login\<close> the domain \<open>evil.tk\<close> ends with a suffix of the
  table, yet the netloc with its port does not, and nothing is added.
\<close>

theorem analyze_urls_findings_counterexample:
  "find_urls ''see http://[ now'' = [''http://['']
   \<and> analyze_urls PhishingDetector no_host_check ''see http://[ now'' = Inl ValueError
   \<and> domain_of ''http://www.example.com/'' = ''www.example.com''
   \<and> label_count ''www.example.com'' = 3
   \<and> analyze_urls PhishingDetector no_host_check ''http://www.example.com/''
       = Inr [\<lparr>url = ''http://www.example.com/'', risk_score = 0, reasons = []\<rparr>]
   \<and> domain_of ''http://evil.tk:8080/login'' = ''evil.tk''
   \<and> suffix ''.tk'' (str_lower (domain_of ''http://evil.tk:8080/login''))
   \<and> analyze_urls PhishingDetector no_host_check ''http://evil.tk:8080/login''
       = Inr [\<lparr>url = ''http://evil.tk:8080/login'', risk_score = 0, reasons = []\<rparr>]"
  by code_simp

theorem analyze_urls_findings_witness:
  "analyze_urls PhishingDetector no_host_check
      ''a http://1.2.3.4/x%20 b https://A.B.C.TK http://a.tk http://a.tk''
     = Inr [\<lparr>url = ''http://1.2.3.4/x%20'', risk_score = 1.1,
             reasons = [''IP address used instead of domain name'',
                        ''Multiple subdomains detected'',
                        ''URL contains encoded characters'']\<rparr>,
            \<lparr>url = ''https://A.B.C.TK'', risk_score = 0.7,
             reasons = [''Suspicious TLD: .tk'', ''Multiple subdomains detected'']\<rparr>,
            \<lparr>url = ''http://a.tk'', risk_score = 0.4, reasons = [''Suspicious TLD: .tk'']\<rparr>,
            \<lparr>url = ''http://a.tk'', risk_score = 0.4, reasons = [''Suspicious TLD: .tk'']\<rparr>]
   \<and> find_urls ''a http://1.2.3.4/x%20 b https://A.B.C.TK http://a.tk http://a.tk''
     = [''http://1.2.3.4/x%20'', ''https://A.B.C.TK'', ''http://a.tk'', ''http://a.tk'']
   \<and> domain_of ''https://A.B.C.TK'' = ''A.B.C.TK''
   \<and> domain_increments PhishingDetector ''https://A.B.C.TK'' = [0.4, 0.3]
   \<and> foldl (+) 0 (domain_increments PhishingDetector ''https://A.B.C.TK'') = 0.7
   \<and> domain_reasons PhishingDetector ''https://A.B.C.TK''
     = [''Suspicious TLD: .tk'', ''Multiple subdomains detected'']
   \<and> analyze_urls PhishingDetector no_host_check ''no link here'' = Inr []"
proof -
  note t = analyze_urls_findings [of "''a http://1.2.3.4/x%20 b https://A.B.C.TK http://a.tk http://a.tk''"
      PhishingDetector no_host_check]
  note n = analyze_urls_findings [of "''no link here''" PhishingDetector no_host_check]
  have e: "analyze_urls PhishingDetector no_host_check
      ''a http://1.2.3.4/x%20 b https://A.B.C.TK http://a.tk http://a.tk''
     = Inr [\<lparr>url = ''http://1.2.3.4/x%20'', risk_score = 1.1,
             reasons = [''IP address used instead of domain name'',
                        ''Multiple subdomains detected'',
                        ''URL contains encoded characters'']\<rparr>,
            \<lparr>url = ''https://A.B.C.TK'', risk_score = 0.7,
             reasons = [''Suspicious TLD: .tk'', ''Multiple subdomains detected'']\<rparr>,
            \<lparr>url = ''http://a.tk'', risk_score = 0.4, reasons = [''Suspicious TLD: .tk'']\<rparr>,
            \<lparr>url = ''http://a.tk'', risk_score = 0.4, reasons = [''Suspicious TLD: .tk'']\<rparr>]"
    by code_simp
  have z: "find_urls ''no link here'' = []" by code_simp
  have d: "domain_of ''https://A.B.C.TK'' = ''A.B.C.TK''" by code_simp
  have s: "split_netloc ''https://A.B.C.TK'' = ''A.B.C.TK''" by code_simp
  have i: "domain_increments PhishingDetector ''https://A.B.C.TK'' = [0.4, 0.3]" by code_simp
  from n z have a: "analyze_urls PhishingDetector no_host_check ''no link here'' = Inr []"
    by simp
  from t e have b: "find_urls ''a http://1.2.3.4/x%20 b https://A.B.C.TK http://a.tk http://a.tk''
     = [''http://1.2.3.4/x%20'', ''https://A.B.C.TK'', ''http://a.tk'', ''http://a.tk'']"
    by simp
  from t e d s have c: "foldl (+) 0 (domain_increments PhishingDetector ''https://A.B.C.TK'') = 0.7
     \<and> domain_reasons PhishingDetector ''https://A.B.C.TK''
         = [''Suspicious TLD: .tk'', ''Multiple subdomains detected'']"
    by simp
  from e b d i c a show ?thesis by simp
qed

text \<open>
  Claim C10 does not hold of the code. The URLs \<open>http://1.2.3.4:8080/x\<close> and
  \<open>http://user@1.2.3.4/\<close> have a bare dotted quad as their domain portion, but the
  IP address check tests the whole netloc, with the port or the user information, and
  does not fire: the findings score 0.3, for the subdomain check alone.
\<close>

theorem ip_with_port_scores_below:
  "analyze_urls PhishingDetector no_host_check ''http://1.2.3.4:8080/x''
     = Inr [\<lparr>url = ''http://1.2.3.4:8080/x'', risk_score = 0.3,
             reasons = [''Multiple subdomains detected'']\<rparr>]
   \<and> split_netloc ''http://1.2.3.4:8080/x'' = ''1.2.3.4:8080''
   \<and> domain_of ''http://1.2.3.4:8080/x'' = ''1.2.3.4''
   \<and> dotted_quad (domain_of ''http://1.2.3.4:8080/x'')
   \<and> analyze_urls PhishingDetector no_host_check ''http://user@1.2.3.4/''
     = Inr [\<lparr>url = ''http://user@1.2.3.4/'', risk_score = 0.3,
             reasons = [''Multiple subdomains detected'']\<rparr>]
   \<and> domain_of ''http://user@1.2.3.4/'' = ''1.2.3.4''"
  by code_simp

end
